theory Spec2Isabelle
  imports Complex_Main
begin

section \<open>Exceptions and observable effects\<close>

text \<open>
  A Python exception is a value: its class name and the text that \<open>str(e)\<close> gives.
  Only subclasses of \<open>Exception\<close> are modelled, since those are what the handlers
  of the scraper catch.  Event-loop time and sleep durations are Python floats; they are
  idealised as real numbers.
\<close>

datatype error = Exc (exc_class: string) (exc_str: string)

text \<open>
  What a coroutine does, in program order: entering and leaving
  \<open>async with semaphore\<close>, the start of pass \<open>k\<close> through the retry loop, the call
  \<open>await rate_limiter.wait(url)\<close>, the page request \<open>session.get(url)\<close>,
  \<open>await asyncio.sleep(backoff)\<close>, and the request for a host's robots.txt.
\<close>

datatype event =
    SemAcquire
  | SemRelease
  | Attempt int
  | RateWait string
  | HttpGet string
  | Sleep real
  | RobotsGet string

fun is_get :: "event \<Rightarrow> bool" where
  "is_get (HttpGet u) = True"
| "is_get e = False"

fun is_sem :: "event \<Rightarrow> bool" where
  "is_sem SemAcquire = True"
| "is_sem SemRelease = True"
| "is_sem e = False"

fun sleeps :: "event list \<Rightarrow> real list" where
  "sleeps [] = []"
| "sleeps (Sleep b # es) = b # sleeps es"
| "sleeps (e # es) = sleeps es"

fun attempt_nos :: "event list \<Rightarrow> int list" where
  "attempt_nos [] = []"
| "attempt_nos (Attempt k # es) = k # attempt_nos es"
| "attempt_nos (e # es) = attempt_nos es"

section \<open>fetch: retry with exponential backoff\<close>

text \<open>
  What the network does with a page request: \<open>session.get\<close> raises (transport error,
  timeout), or it gives a response.  A response has a status, the
  \<open>ClientResponseError\<close> that \<open>raise_for_status\<close> builds for it, and what
  \<open>resp.text()\<close> does, which is to raise or to give the body.
\<close>

datatype page_response = PageRaises error | PageStatus nat error "error + string"

text \<open>
  Lines 82 to 84: the request, \<open>resp.raise_for_status()\<close>, which raises exactly when
  the status is 400 or more, and the read of the body.
\<close>

definition request :: "page_response \<Rightarrow> error + string" where
  "request p =
     (case p of
        PageRaises e \<Rightarrow> Inl e
      | PageStatus s e t \<Rightarrow> if 400 \<le> s then Inl e else t)"

text \<open>
  The body of the \<open>try\<close>, lines 80 to 84.  \<open>rl\<close> says whether a rate limiter was
  passed; \<open>w\<close> is what its \<open>wait\<close> does in this attempt: \<open>None\<close> when it returns,
  \<open>Some e\<close> when it raises \<open>e\<close>, in which case no request is made.  The outcome is
  \<open>Inl e\<close> when the body raises and \<open>Inr body\<close> when it returns.
\<close>

definition try_attempt ::
  "error option \<Rightarrow> page_response \<Rightarrow> string \<Rightarrow> bool \<Rightarrow> (error + string) \<times> event list" where
  "try_attempt w p url rl =
     (if rl
      then (case w of
              Some e \<Rightarrow> (Inl e, [RateWait url])
            | None \<Rightarrow> (request p, [RateWait url, HttpGet url]))
      else (request p, [HttpGet url]))"

text \<open>
  The loop of \<open>fetch\<close> from pass \<open>attempt\<close> on.  \<open>waits k\<close> and \<open>pages k\<close> are
  what the limiter and the network do in pass \<open>k\<close>.  The result is \<open>Inl e\<close> when
  fetch raises, \<open>Inr (Some body)\<close> when it returns a body and \<open>Inr None\<close> when the
  \<open>for\<close> loop ends without returning, which makes the function return \<open>None\<close>.
\<close>

function attempts ::
  "(int \<Rightarrow> error option) \<Rightarrow> (int \<Rightarrow> page_response) \<Rightarrow> string \<Rightarrow> int \<Rightarrow> bool \<Rightarrow> int \<Rightarrow> real
     \<Rightarrow> (error + string option) \<times> event list" where
  "attempts waits pages url retries rl attempt backoff =
     (if retries < attempt then (Inr None, [])
      else case try_attempt (waits attempt) (pages attempt) url rl of
        (Inr body, evs) \<Rightarrow> (Inr (Some body), Attempt attempt # evs)
      | (Inl e, evs) \<Rightarrow>
          if attempt = retries then (Inl e, Attempt attempt # evs)
          else (case attempts waits pages url retries rl (attempt + 1) (backoff * 2) of
                  (r, rest) \<Rightarrow> (r, Attempt attempt # evs @ [Sleep backoff] @ rest)))"
  by pat_completeness auto
termination
  by (relation "measure (\<lambda>(waits, pages, url, retries, rl, attempt, backoff).
                  nat (retries + 1 - attempt))")
     auto

text \<open>
  \<open>fetch\<close>, for a caller that the semaphore admits: the loop runs inside
  \<open>async with semaphore\<close>, which is left on every way out.
\<close>

definition fetch ::
  "(int \<Rightarrow> error option) \<Rightarrow> (int \<Rightarrow> page_response) \<Rightarrow> string \<Rightarrow> int \<Rightarrow> bool
     \<Rightarrow> (error + string option) \<times> event list" where
  "fetch waits pages url retries rl =
     (case attempts waits pages url retries rl 1 1 of
        (r, evs) \<Rightarrow> (r, [SemAcquire] @ evs @ [SemRelease]))"

declare attempts.simps [simp del]

text \<open>
  An attempt fails when the limiter raises, the request raises, the status is 400 or
  more, or the body cannot be read.
\<close>

definition failing :: "error option \<Rightarrow> page_response \<Rightarrow> bool \<Rightarrow> bool" where
  "failing w p rl \<longleftrightarrow>
     (rl \<and> w \<noteq> None)
     \<or> (case p of PageRaises e \<Rightarrow> True | PageStatus s e t \<Rightarrow> 400 \<le> s \<or> isl t)"

text \<open>
  The schedule of a call whose last pass through the loop is pass \<open>j\<close>: each earlier
  pass is followed by a sleep of \<open>2 ^ (k - 1)\<close> seconds (base 1), and nothing follows
  pass \<open>j\<close>.
\<close>

definition retry_trace ::
  "(int \<Rightarrow> error option) \<Rightarrow> (int \<Rightarrow> page_response) \<Rightarrow> string \<Rightarrow> bool \<Rightarrow> int \<Rightarrow> event list" where
  "retry_trace waits pages url rl j =
     concat (map (\<lambda>k. Attempt k # snd (try_attempt (waits k) (pages k) url rl)
                        @ [Sleep (2 ^ nat (k - 1))]) [1..j - 1])
     @ Attempt j # snd (try_attempt (waits j) (pages j) url rl)"

section \<open>RateLimiter\<close>

text \<open>
  The fields of a \<open>RateLimiter\<close> object, apart from its lock.  \<open>__init__\<close> clamps
  the delay at zero and starts with no reservation.
\<close>

record RateLimiter =
  delay :: real
  per_host :: bool
  next_ready_global :: real
  per_host_next :: "string \<rightharpoonup> real"

definition RateLimiter_init :: "real \<Rightarrow> bool \<Rightarrow> RateLimiter" where
  "RateLimiter_init d ph =
     \<lparr>delay = max 0 d, per_host = ph, next_ready_global = 0, per_host_next = Map.empty\<rparr>"

text \<open>
  The three places where \<open>wait\<close> touches the object.  \<open>scope_key\<close> is the variable
  \<open>host\<close>: the URL's network location in per-host mode, a fixed key otherwise
  (\<open>netloc\<close> stands for \<open>urlparse(url).netloc\<close> and is a parameter throughout).
  \<open>next_ready\<close> is the time read in the branch taken, with \<open>dict.get(host, 0.0)\<close>
  in per-host mode.  \<open>reserve\<close> is the assignment that closes either branch.
\<close>

definition scope_key :: "(string \<Rightarrow> string) \<Rightarrow> RateLimiter \<Rightarrow> string \<Rightarrow> string" where
  "scope_key netloc rl url = (if per_host rl then netloc url else ''__global__'')"

definition next_ready :: "RateLimiter \<Rightarrow> string \<Rightarrow> real" where
  "next_ready rl host =
     (if per_host rl
      then (case per_host_next rl host of None \<Rightarrow> 0 | Some t \<Rightarrow> t)
      else next_ready_global rl)"

definition reserve :: "RateLimiter \<Rightarrow> string \<Rightarrow> real \<Rightarrow> RateLimiter" where
  "reserve rl host now =
     (if per_host rl
      then rl\<lparr>per_host_next := (per_host_next rl)(host \<mapsto> now + delay rl)\<rparr>
      else rl\<lparr>next_ready_global := now + delay rl\<rparr>)"

subsection \<open>Concurrent callers\<close>

text \<open>
  Tasks of one event loop run one at a time and give up control only at an \<open>await\<close>
  that suspends.  \<open>wait\<close> has two such points: entering \<open>async with self._lock\<close>
  when the lock is taken, and \<open>asyncio.sleep\<close>.  A task is therefore outside
  \<open>wait\<close>, queued for the lock with its scope key already computed, or asleep inside
  the \<open>async with\<close> block until the loop's clock reaches the end of its sleep.
\<close>

datatype pc = Idle | WaitLock string | Sleeping string real

text \<open>
  The limiter, the task that is inside \<open>async with self._lock\<close> (if any), the loop's
  clock, where every task is, and the calls of \<open>wait\<close> that have returned, newest
  first, each with its scope key and the last value of \<open>now\<close>: the instant from which
  the caller goes on to its request.
\<close>

record limiter_world =
  limiter :: RateLimiter
  lock :: "nat option"
  clock :: real
  pcs :: "nat \<Rightarrow> pc"
  granted :: "(string \<times> real) list"

text \<open>
  The body of the \<open>async with\<close> block up to its first suspension.  The task reads the
  clock; if the scope's time has not come it starts a sleep of \<open>next_ready - now\<close>
  seconds and keeps the lock; otherwise it reserves, leaves the block and returns.
\<close>

definition locked_section :: "nat \<Rightarrow> string \<Rightarrow> limiter_world \<Rightarrow> limiter_world" where
  "locked_section t host w =
     (let now = clock w; rl = limiter w in
      if now < next_ready rl host
      then w\<lparr>lock := Some t,
             pcs := (pcs w)(t := Sleeping host (now + (next_ready rl host - now)))\<rparr>
      else w\<lparr>limiter := reserve rl host now, lock := None,
             pcs := (pcs w)(t := Idle), granted := (host, now) # granted w\<rparr>)"

text \<open>The rest of the block after the sleep: read the clock again, reserve, leave.\<close>

definition after_sleep :: "nat \<Rightarrow> string \<Rightarrow> limiter_world \<Rightarrow> limiter_world" where
  "after_sleep t host w =
     (let now = clock w in
      w\<lparr>limiter := reserve (limiter w) host now, lock := None,
        pcs := (pcs w)(t := Idle), granted := (host, now) # granted w\<rparr>)"

text \<open>
  What the event loop can do next: let time pass, start a call of \<open>wait\<close> in an idle
  task, resume a task queued for the lock once the lock is free, or resume a sleeper whose
  time is up.  A choice that is not possible in the current state changes nothing.
\<close>

datatype sched = Tick real | Call nat string | Acquire nat | Wake nat

fun rl_step :: "(string \<Rightarrow> string) \<Rightarrow> sched \<Rightarrow> limiter_world \<Rightarrow> limiter_world" where
  "rl_step netloc (Tick d) w = (if 0 \<le> d then w\<lparr>clock := clock w + d\<rparr> else w)"
| "rl_step netloc (Call t url) w =
     (if pcs w t \<noteq> Idle then w
      else if delay (limiter w) \<le> 0 then w
      else let host = scope_key netloc (limiter w) url in
           if lock w = None then locked_section t host w
           else w\<lparr>pcs := (pcs w)(t := WaitLock host)\<rparr>)"
| "rl_step netloc (Acquire t) w =
     (case pcs w t of
        WaitLock host \<Rightarrow> if lock w = None then locked_section t host w else w
      | _ \<Rightarrow> w)"
| "rl_step netloc (Wake t) w =
     (case pcs w t of
        Sleeping host until \<Rightarrow> if until \<le> clock w then after_sleep t host w else w
      | _ \<Rightarrow> w)"

fun rl_run :: "(string \<Rightarrow> string) \<Rightarrow> sched list \<Rightarrow> limiter_world \<Rightarrow> limiter_world" where
  "rl_run netloc [] w = w"
| "rl_run netloc (e # es) w = rl_run netloc es (rl_step netloc e w)"

definition rl_start :: "real \<Rightarrow> bool \<Rightarrow> real \<Rightarrow> limiter_world" where
  "rl_start d ph t0 =
     \<lparr>limiter = RateLimiter_init d ph, lock = None, clock = t0,
      pcs = (\<lambda>t. Idle), granted = []\<rparr>"

text \<open>
  The instants at which calls for one scope were let through, newest first, and the
  property that each is at least \<open>d\<close> after the one before.
\<close>

definition grants_of :: "string \<Rightarrow> (string \<times> real) list \<Rightarrow> real list" where
  "grants_of s g = map snd (filter (\<lambda>p. fst p = s) g)"

fun spaced :: "real \<Rightarrow> real list \<Rightarrow> bool" where
  "spaced d (t2 # t1 # ts) = (t1 + d \<le> t2 \<and> spaced d (t1 # ts))"
| "spaced d ts = True"

text \<open>
  A simplified \<open>netloc\<close> for concrete runs: what lies between the first \<open>//\<close> and the
  next \<open>/\<close>, \<open>?\<close> or \<open>#\<close>.
\<close>

fun after_slashes :: "string \<Rightarrow> string" where
  "after_slashes (a # b # cs) =
     (if a = CHR ''/'' \<and> b = CHR ''/'' then cs else after_slashes (b # cs))"
| "after_slashes cs = []"

definition netloc_simple :: "string \<Rightarrow> string" where
  "netloc_simple url =
     takeWhile (\<lambda>c. c \<noteq> CHR ''/'' \<and> c \<noteq> CHR ''?'' \<and> c \<noteq> CHR ''#'') (after_slashes url)"

text \<open>
  What holds in every state the loop can reach: the configuration is fixed; a sleeper is
  the task inside the lock and sleeps at least until its scope's time; every call let
  through for a scope lies at least one delay before that scope's time.
\<close>

definition limiter_inv :: "real \<Rightarrow> bool \<Rightarrow> limiter_world \<Rightarrow> bool" where
  "limiter_inv d ph w \<longleftrightarrow>
     delay (limiter w) = d \<and> per_host (limiter w) = ph
     \<and> (\<forall>t h u. pcs w t = Sleeping h u \<longrightarrow> lock w = Some t \<and> next_ready (limiter w) h \<le> u)
     \<and> (\<forall>p \<in> set (granted w). snd p + d \<le> next_ready (limiter w) (fst p))"

text \<open>
  A concrete schedule with delay 5 per host: task 0 is let through for host \<open>a\<close> at
  time 100; a second later task 1 calls for \<open>a\<close> and has to sleep; task 2 then calls
  for host \<open>b\<close>, which nobody has contacted yet.
\<close>

definition blocked_run :: "sched list" where
  "blocked_run = [Call 0 ''http://a/x'', Tick 1, Call 1 ''http://a/y'', Call 2 ''http://b/z'', Acquire 2]"

section \<open>The concurrency gate around fetch\<close>

text \<open>
  Where a task is in \<open>fetch\<close>: not called yet; suspended on entry to
  \<open>async with semaphore\<close>; inside the block in attempt \<open>k\<close> with the current value of
  \<open>backoff\<close>, waiting for the rate limiter or the network; inside the block asleep
  after attempt \<open>k\<close> failed; or out of the block with its outcome, which is an
  exception, a body, or \<open>None\<close>.
\<close>

datatype fpc =
    NotCalled
  | WaitSem
  | Attempting int real
  | BackingOff int real
  | Finished "error + string option"

fun in_block :: "fpc \<Rightarrow> bool" where
  "in_block (Attempting k b) = True"
| "in_block (BackingOff k b) = True"
| "in_block p = False"

text \<open>
  The semaphore's counter, the retry count of the calls, every task's place, and for
  every task how many times it has entered the semaphore.
\<close>

record gate_world =
  sem_value :: nat
  gate_retries :: int
  fpcs :: "fpc list"
  entries :: "nat list"

text \<open>
  Entering the block takes one unit of the counter.  The loop then starts attempt 1 with
  backoff 1, or, when \<open>range(1, retries + 1)\<close> is empty, the block is left at once
  and the unit given back.
\<close>

definition enter_block :: "nat \<Rightarrow> gate_world \<Rightarrow> gate_world" where
  "enter_block i w =
     (if gate_retries w < 1
      then w\<lparr>fpcs := (fpcs w)[i := Finished (Inr None)],
             entries := (entries w)[i := entries w ! i + 1]\<rparr>
      else w\<lparr>sem_value := sem_value w - 1,
             fpcs := (fpcs w)[i := Attempting 1 1],
             entries := (entries w)[i := entries w ! i + 1]\<rparr>)"

text \<open>
  The moves of the event loop: a task calls \<open>fetch\<close>; a task suspended on the
  semaphore is resumed when the counter is positive; the attempt of a task ends, with an
  exception or a body; the backoff sleep of a task ends.  Leaving the block, by
  \<open>return\<close> or by the exception of the last attempt, gives the unit back.
\<close>

datatype gsched =
    GCall nat
  | GGrant nat
  | GResponse nat "error + string"
  | GTimer nat

fun gate_step :: "gsched \<Rightarrow> gate_world \<Rightarrow> gate_world" where
  "gate_step (GCall i) w =
     (if i < length (fpcs w) \<and> fpcs w ! i = NotCalled
      then if 0 < sem_value w then enter_block i w
           else w\<lparr>fpcs := (fpcs w)[i := WaitSem]\<rparr>
      else w)"
| "gate_step (GGrant i) w =
     (if i < length (fpcs w) \<and> fpcs w ! i = WaitSem \<and> 0 < sem_value w
      then enter_block i w else w)"
| "gate_step (GResponse i out) w =
     (if i < length (fpcs w)
      then (case fpcs w ! i of
              Attempting k b \<Rightarrow>
                (case out of
                   Inr body \<Rightarrow>
                     w\<lparr>sem_value := sem_value w + 1,
                       fpcs := (fpcs w)[i := Finished (Inr (Some body))]\<rparr>
                 | Inl e \<Rightarrow>
                     if k = gate_retries w
                     then w\<lparr>sem_value := sem_value w + 1,
                            fpcs := (fpcs w)[i := Finished (Inl e)]\<rparr>
                     else w\<lparr>fpcs := (fpcs w)[i := BackingOff k b]\<rparr>)
            | _ \<Rightarrow> w)
      else w)"
| "gate_step (GTimer i) w =
     (if i < length (fpcs w)
      then (case fpcs w ! i of
              BackingOff k b \<Rightarrow> w\<lparr>fpcs := (fpcs w)[i := Attempting (k + 1) (b * 2)]\<rparr>
            | _ \<Rightarrow> w)
      else w)"

fun gate_run :: "gsched list \<Rightarrow> gate_world \<Rightarrow> gate_world" where
  "gate_run [] w = w"
| "gate_run (e # es) w = gate_run es (gate_step e w)"

text \<open>
  \<open>asyncio.Semaphore(k)\<close> shared by \<open>n\<close> tasks that call \<open>fetch\<close> with the same
  retry count.
\<close>

definition gate_start :: "nat \<Rightarrow> nat \<Rightarrow> int \<Rightarrow> gate_world" where
  "gate_start k n r =
     \<lparr>sem_value = k, gate_retries = r, fpcs = replicate n NotCalled, entries = replicate n 0\<rparr>"

definition active :: "gate_world \<Rightarrow> nat" where
  "active w = length (filter in_block (fpcs w))"

text \<open>
  In every reachable state the counter and the tasks inside the block add up to the
  bound, and a task has entered the semaphore once if it is past the entry and not at all
  before.
\<close>

fun entered :: "fpc \<Rightarrow> nat" where
  "entered NotCalled = 0"
| "entered WaitSem = 0"
| "entered p = 1"

definition gate_inv :: "nat \<Rightarrow> gate_world \<Rightarrow> bool" where
  "gate_inv k w \<longleftrightarrow>
     sem_value w + active w = k
     \<and> length (entries w) = length (fpcs w)
     \<and> entries w = map entered (fpcs w)"

text \<open>
  A concrete run with two units and three tasks: tasks 0 and 1 enter, task 2 has to wait;
  task 0 fails once and starts its second attempt without leaving the block; task 1
  returns a body, after which task 2 enters.
\<close>

definition gate_demo :: "gsched list" where
  "gate_demo =
     [GCall 0, GCall 1, GCall 2, GResponse 0 (Inl (Exc ''ClientConnectionError'' ''reset'')),
      GTimer 0, GGrant 2, GResponse 1 (Inr ''<html>''), GGrant 2]"

section \<open>RobotsCache\<close>

subsection \<open>The robots parser of the standard library\<close>

text \<open>
  A \<open>RobotFileParser\<close> holds entries, each a list of user agents with a list of rule
  lines, a default entry for the agent \<open>*\<close>, two flags that only \<open>read()\<close> sets, and
  the time of the last check, of which only whether it is set matters.
\<close>

record RuleLine =
  rule_path :: string
  rule_allowance :: bool

record Entry =
  useragents :: "string list"
  rulelines :: "RuleLine list"

record RobotFileParser =
  rfp_entries :: "Entry list"
  rfp_default_entry :: "Entry option"
  rfp_disallow_all :: bool
  rfp_allow_all :: bool
  rfp_last_checked :: bool

record Selector =
  sel_name :: string
  sel_css :: string
  sel_attr :: "string option"

type_synonym data = "(string \<times> string list) list"

text \<open>
  The string and URL functions underneath are parameters, and each may raise where the
  library's does: \<open>urlparse(url).netloc\<close>; \<open>str.splitlines\<close>; \<open>str.lower\<close>; one
  pass of the loop of \<open>RobotFileParser.parse\<close> over a line, from the loop's state
  (the state number, the entry being built, the parser) to the next; the path with
  parameters, query and fragment that \<open>RobotFileParser.can_fetch\<close> extracts from a URL
  with \<open>unquote\<close>, \<open>urlparse\<close> and \<open>quote\<close>, \<open>/\<close> when it is empty; and the
  extraction step \<open>parse_html(html, selectors)\<close>, built on an HTML parser.
\<close>

record lib =
  url_netloc :: "string \<Rightarrow> error + string"
  str_splitlines :: "string \<Rightarrow> string list"
  str_lower :: "string \<Rightarrow> string"
  parse_line :: "string \<Rightarrow> nat \<times> Entry \<times> RobotFileParser \<Rightarrow> error + nat \<times> Entry \<times> RobotFileParser"
  url_filename :: "string \<Rightarrow> error + string"
  parse_html :: "string option \<Rightarrow> Selector list \<Rightarrow> error + data"

definition new_entry :: Entry where
  "new_entry = \<lparr>useragents = [], rulelines = []\<rparr>"

definition new_parser :: RobotFileParser where
  "new_parser =
     \<lparr>rfp_entries = [], rfp_default_entry = None, rfp_disallow_all = False,
      rfp_allow_all = False, rfp_last_checked = False\<rparr>"

text \<open>\<open>_add_entry\<close>: an entry for \<open>*\<close> becomes the default entry unless there is one.\<close>

definition add_entry :: "RobotFileParser \<Rightarrow> Entry \<Rightarrow> RobotFileParser" where
  "add_entry rp entry =
     (if ''*'' \<in> set (useragents entry)
      then (if rfp_default_entry rp = None then rp\<lparr>rfp_default_entry := Some entry\<rparr> else rp)
      else rp\<lparr>rfp_entries := rfp_entries rp @ [entry]\<rparr>)"

text \<open>
  \<open>parse(lines)\<close> on a fresh parser: it marks the parser as checked, runs the loop
  over the lines from state 0 with an empty entry, and adds the entry being built when
  the loop ends in state 2.  An exception in the loop leaves \<open>parse\<close>.
\<close>

fun parse_loop ::
  "lib \<Rightarrow> string list \<Rightarrow> nat \<times> Entry \<times> RobotFileParser \<Rightarrow> error + nat \<times> Entry \<times> RobotFileParser" where
  "parse_loop lib [] st = Inr st"
| "parse_loop lib (line # lines) st =
     (case parse_line lib line st of
        Inl e \<Rightarrow> Inl e
      | Inr st' \<Rightarrow> parse_loop lib lines st')"

definition rfp_parse :: "lib \<Rightarrow> string list \<Rightarrow> error + RobotFileParser" where
  "rfp_parse lib lines =
     (case parse_loop lib lines (0, new_entry, new_parser\<lparr>rfp_last_checked := True\<rparr>) of
        Inl e \<Rightarrow> Inl e
      | Inr (state, entry, rp) \<Rightarrow> Inr (if state = 2 then add_entry rp entry else rp))"

text \<open>
  \<open>Entry.applies_to\<close>, \<open>RuleLine.applies_to\<close> and \<open>Entry.allowance\<close>: an entry
  applies to a user agent when one of its agents is \<open>*\<close> or occurs, in lower case, in
  the lower-cased part of the user agent before the first \<open>/\<close>; the first rule line
  whose path is \<open>*\<close> or a prefix of the file name decides, and no rule line allows.
\<close>

fun contains :: "string \<Rightarrow> string \<Rightarrow> bool" where
  "contains sub [] = (sub = [])"
| "contains sub (c # cs) = (take (length sub) (c # cs) = sub \<or> contains sub cs)"

definition entry_applies_to :: "lib \<Rightarrow> Entry \<Rightarrow> string \<Rightarrow> bool" where
  "entry_applies_to lib entry useragent =
     (let ua = str_lower lib (takeWhile (\<lambda>c. c \<noteq> CHR ''/'') useragent)
      in list_ex (\<lambda>agent. agent = ''*'' \<or> contains (str_lower lib agent) ua) (useragents entry))"

definition rule_applies_to :: "RuleLine \<Rightarrow> string \<Rightarrow> bool" where
  "rule_applies_to line filename \<longleftrightarrow>
     rule_path line = ''*'' \<or> take (length (rule_path line)) filename = rule_path line"

fun allowance :: "RuleLine list \<Rightarrow> string \<Rightarrow> bool" where
  "allowance [] filename = True"
| "allowance (line # lines) filename =
     (if rule_applies_to line filename then rule_allowance line else allowance lines filename)"

text \<open>
  \<open>RobotFileParser.can_fetch(useragent, url)\<close>: the flags, the check that the parser
  has been fed, the file name of the URL, whose extraction may raise, then the first
  entry that applies, then the default entry, then \<open>True\<close>.
\<close>

definition rfp_can_fetch :: "lib \<Rightarrow> RobotFileParser \<Rightarrow> string \<Rightarrow> string \<Rightarrow> error + bool" where
  "rfp_can_fetch lib rp useragent url =
     (if rfp_disallow_all rp then Inr False
      else if rfp_allow_all rp then Inr True
      else if \<not> rfp_last_checked rp then Inr False
      else case url_filename lib url of
             Inl e \<Rightarrow> Inl e
           | Inr filename \<Rightarrow>
               (case find (\<lambda>entry. entry_applies_to lib entry useragent) (rfp_entries rp) of
                  Some entry \<Rightarrow> Inr (allowance (rulelines entry) filename)
                | None \<Rightarrow>
                    (case rfp_default_entry rp of
                       Some entry \<Rightarrow> Inr (allowance (rulelines entry) filename)
                     | None \<Rightarrow> Inr True)))"

subsection \<open>can_fetch\<close>

text \<open>
  What the network does with the request for a robots.txt: \<open>session.get\<close> raises, or
  it gives a response with a status, whose \<open>text()\<close> raises or gives the document.
\<close>

datatype robots_response = GetRaises error | Status nat "error + string"

text \<open>
  The \<open>try\<close> block of \<open>can_fetch\<close>: it raises, or it ends with the value of
  \<open>text\<close>, which is read from the response only when the status is 200.  The handler
  \<open>except Exception: pass\<close> leaves \<open>text\<close> empty.
\<close>

definition try_robots :: "robots_response \<Rightarrow> error + string" where
  "try_robots r =
     (case r of
        GetRaises e \<Rightarrow> Inl e
      | Status s t \<Rightarrow> if s = 200 then t else Inr '''')"

definition robots_text :: "robots_response \<Rightarrow> string" where
  "robots_text r = (case try_robots r of Inl e \<Rightarrow> '''' | Inr text \<Rightarrow> text)"

text \<open>
  Lines 140 to 145, outside the \<open>try\<close>: a fresh parser is fed the lines of the text,
  or no lines when the text is empty.  \<open>parse\<close> may raise.
\<close>

definition make_parser :: "lib \<Rightarrow> string \<Rightarrow> error + RobotFileParser" where
  "make_parser lib text =
     (if text \<noteq> '''' then rfp_parse lib (str_splitlines lib text) else rfp_parse lib [])"

definition robots_url :: "string \<Rightarrow> string" where
  "robots_url host = ''https://'' @ host @ ''/robots.txt''"

text \<open>
  \<open>can_fetch\<close> as one step: its whole body after the host is computed runs inside
  \<open>async with self._lock\<close>.  It takes the user agent of the cache, the network's
  answer for each robots URL and the cache, and gives the decision or the exception
  raised, the cache afterwards and the requests made.  The host computation, \<open>parse\<close>
  and the parser's \<open>can_fetch\<close> are outside the \<open>try\<close>; the parser is stored
  between the last two.
\<close>

definition can_fetch ::
  "lib \<Rightarrow> string \<Rightarrow> (string \<Rightarrow> robots_response) \<Rightarrow> (string \<rightharpoonup> RobotFileParser) \<Rightarrow> string
     \<Rightarrow> (error + bool) \<times> (string \<rightharpoonup> RobotFileParser) \<times> event list" where
  "can_fetch lib ua net cache url =
     (case url_netloc lib url of
        Inl e \<Rightarrow> (Inl e, cache, [])
      | Inr host \<Rightarrow>
          (case cache host of
             Some rp \<Rightarrow> (rfp_can_fetch lib rp ua url, cache, [])
           | None \<Rightarrow>
               (case make_parser lib (robots_text (net (robots_url host))) of
                  Inl e \<Rightarrow> (Inl e, cache, [RobotsGet (robots_url host)])
                | Inr rp \<Rightarrow>
                    (rfp_can_fetch lib rp ua url, cache(host \<mapsto> rp),
                     [RobotsGet (robots_url host)]))))"

text \<open>The parser that \<open>parse([])\<close> leaves: checked, and without any entry.\<close>

definition no_rules :: RobotFileParser where
  "no_rules = new_parser\<lparr>rfp_last_checked := True\<rparr>"

subsection \<open>Concurrent callers of can_fetch\<close>

text \<open>
  A task is outside \<open>can_fetch\<close>, queued for the lock with its URL and host, or inside
  the lock waiting for the robots.txt of a host on behalf of a URL.
\<close>

datatype rpc = RIdle | RWaitLock string string | RFetching string string

text \<open>
  The cache, the task inside the lock, every task's place, the hosts whose robots.txt has
  been requested (newest first), and the calls that have ended, each with its URL and
  its decision or exception.
\<close>

record robots_world =
  rcache :: "string \<rightharpoonup> RobotFileParser"
  rlock :: "nat option"
  rpcs :: "nat \<Rightarrow> rpc"
  fetched :: "string list"
  answers :: "(string \<times> (error + bool)) list"

text \<open>
  The block up to its first suspension: a cached host is answered at once and the lock
  left; otherwise the request goes out and the task keeps the lock.
\<close>

definition in_lock ::
  "lib \<Rightarrow> string \<Rightarrow> nat \<Rightarrow> string \<Rightarrow> string \<Rightarrow> robots_world \<Rightarrow> robots_world" where
  "in_lock lib ua t url host w =
     (case rcache w host of
        Some rp \<Rightarrow>
          w\<lparr>rlock := None, rpcs := (rpcs w)(t := RIdle),
            answers := (url, rfp_can_fetch lib rp ua url) # answers w\<rparr>
      | None \<Rightarrow>
          w\<lparr>rlock := Some t, rpcs := (rpcs w)(t := RFetching url host),
            fetched := host # fetched w\<rparr>)"

text \<open>
  The rest of the block once the network has answered: parse, store, decide, leave.  When
  \<open>parse\<close> raises, the block is left before the store.
\<close>

definition got_robots ::
  "lib \<Rightarrow> string \<Rightarrow> nat \<Rightarrow> string \<Rightarrow> string \<Rightarrow> robots_response
     \<Rightarrow> robots_world \<Rightarrow> robots_world" where
  "got_robots lib ua t url host r w =
     (case make_parser lib (robots_text r) of
        Inl e \<Rightarrow>
          w\<lparr>rlock := None, rpcs := (rpcs w)(t := RIdle), answers := (url, Inl e) # answers w\<rparr>
      | Inr rp \<Rightarrow>
          w\<lparr>rcache := (rcache w)(host \<mapsto> rp), rlock := None, rpcs := (rpcs w)(t := RIdle),
            answers := (url, rfp_can_fetch lib rp ua url) # answers w\<rparr>)"

datatype rsched = RCall nat string | RAcquire nat | RResponse nat robots_response

fun robots_step :: "lib \<Rightarrow> string \<Rightarrow> rsched \<Rightarrow> robots_world \<Rightarrow> robots_world" where
  "robots_step lib ua (RCall t url) w =
     (if rpcs w t \<noteq> RIdle then w
      else case url_netloc lib url of
             Inl e \<Rightarrow> w\<lparr>answers := (url, Inl e) # answers w\<rparr>
           | Inr host \<Rightarrow>
               if rlock w = None then in_lock lib ua t url host w
               else w\<lparr>rpcs := (rpcs w)(t := RWaitLock url host)\<rparr>)"
| "robots_step lib ua (RAcquire t) w =
     (case rpcs w t of
        RWaitLock url host \<Rightarrow> if rlock w = None then in_lock lib ua t url host w else w
      | _ \<Rightarrow> w)"
| "robots_step lib ua (RResponse t r) w =
     (case rpcs w t of
        RFetching url host \<Rightarrow> got_robots lib ua t url host r w
      | _ \<Rightarrow> w)"

fun robots_run :: "lib \<Rightarrow> string \<Rightarrow> rsched list \<Rightarrow> robots_world \<Rightarrow> robots_world" where
  "robots_run lib ua [] w = w"
| "robots_run lib ua (e # es) w = robots_run lib ua es (robots_step lib ua e w)"

definition robots_start :: robots_world where
  "robots_start =
     \<lparr>rcache = Map.empty, rlock = None, rpcs = (\<lambda>t. RIdle), fetched = [], answers = []\<rparr>"

subsection \<open>A stand-in for the library\<close>

text \<open>
  A small library for concrete runs.  It knows URLs of the form \<open>scheme://host/path\<close>,
  refuses a host with one square bracket and not the other, as \<open>urlparse\<close> does,
  decodes only \<open>%5B\<close> and \<open>%5D\<close>, lowers ASCII letters, and reads robots.txt lines
  that start with \<open>User-agent: \<close>, \<open>Disallow: \<close> or \<open>Allow: \<close>, where a rule line
  is built from its path with \<open>urlparse\<close> and so refuses the same hosts.
\<close>

definition unbalanced :: "string \<Rightarrow> bool" where
  "unbalanced n \<longleftrightarrow> (CHR ''['' \<in> set n) \<noteq> (CHR '']'' \<in> set n)"

definition invalid_ipv6 :: error where
  "invalid_ipv6 = Exc ''ValueError'' ''Invalid IPv6 URL''"

definition netloc_checked :: "string \<Rightarrow> error + string" where
  "netloc_checked url =
     (if unbalanced (netloc_simple url) then Inl invalid_ipv6 else Inr (netloc_simple url))"

fun unquote_brackets :: "string \<Rightarrow> string" where
  "unquote_brackets (a # b # c # cs) =
     (if a = CHR ''%'' \<and> b = CHR ''5'' \<and> c = CHR ''B'' then CHR ''['' # unquote_brackets cs
      else if a = CHR ''%'' \<and> b = CHR ''5'' \<and> c = CHR ''D'' then CHR '']'' # unquote_brackets cs
      else a # unquote_brackets (b # c # cs))"
| "unquote_brackets cs = cs"

definition url_path :: "string \<Rightarrow> string" where
  "url_path url = dropWhile (\<lambda>c. c \<noteq> CHR ''/'') (after_slashes url)"

definition filename_simple :: "string \<Rightarrow> error + string" where
  "filename_simple url =
     (if unbalanced (netloc_simple (unquote_brackets url)) then Inl invalid_ipv6
      else Inr (if url_path (unquote_brackets url) = [] then ''/''
                else url_path (unquote_brackets url)))"

definition lower_char :: "char \<Rightarrow> char" where
  "lower_char c =
     (if 65 \<le> (of_char c :: nat) \<and> (of_char c :: nat) \<le> 90
      then char_of ((of_char c :: nat) + 32) else c)"

fun lines_of :: "string \<Rightarrow> string \<Rightarrow> string list" where
  "lines_of acc [] = (if acc = [] then [] else [rev acc])"
| "lines_of acc (c # cs) =
     (if c = CHR 0x0A then rev acc # lines_of [] cs else lines_of (c # acc) cs)"

definition rule_line_simple ::
  "string \<Rightarrow> bool \<Rightarrow> nat \<times> Entry \<times> RobotFileParser \<Rightarrow> error + nat \<times> Entry \<times> RobotFileParser" where
  "rule_line_simple p allow st =
     (case st of (state, entry, rp) \<Rightarrow>
        if state = 0 then Inr st
        else if take 2 p = ''//''
                \<and> unbalanced (takeWhile (\<lambda>c. c \<noteq> CHR ''/'' \<and> c \<noteq> CHR ''?'' \<and> c \<noteq> CHR ''#'') (drop 2 p))
        then Inl invalid_ipv6
        else Inr (2, entry\<lparr>rulelines := rulelines entry
                       @ [\<lparr>rule_path = p, rule_allowance = (allow \<or> p = [])\<rparr>]\<rparr>, rp))"

definition parse_line_simple ::
  "string \<Rightarrow> nat \<times> Entry \<times> RobotFileParser \<Rightarrow> error + nat \<times> Entry \<times> RobotFileParser" where
  "parse_line_simple line st =
     (case st of (state, entry, rp) \<Rightarrow>
        if take 12 line = ''User-agent: ''
        then (if state = 2
              then Inr (1, new_entry\<lparr>useragents := [drop 12 line]\<rparr>, add_entry rp entry)
              else Inr (1, entry\<lparr>useragents := useragents entry @ [drop 12 line]\<rparr>, rp))
        else if take 10 line = ''Disallow: '' then rule_line_simple (drop 10 line) False st
        else if take 7 line = ''Allow: '' then rule_line_simple (drop 7 line) True st
        else Inr st)"

definition lib_simple :: lib where
  "lib_simple =
     \<lparr>url_netloc = netloc_checked,
      str_splitlines = lines_of [],
      str_lower = map lower_char,
      parse_line = parse_line_simple,
      url_filename = filename_simple,
      parse_html = (\<lambda>html sels. case html of
                      None \<Rightarrow> Inl (Exc ''TypeError'' ''object of type NoneType has no len()'')
                    | Some h \<Rightarrow> if h = [] then Inl (Exc ''ValueError'' ''empty document'')
                                else Inr [(''title'', [h])])\<rparr>"

text \<open>
  A robots.txt that makes \<open>parse\<close> raise, and a run in which two tasks ask about URLs
  of host \<open>a\<close>, which serves it: task 0 takes the lock and requests the document,
  task 1 queues; the document arrives; task 1 is resumed and its request is answered
  with the same document.
\<close>

definition bad_robots :: string where
  "bad_robots = ''User-agent: *'' @ [CHR 0x0A] @ ''Disallow: //[x''"

definition refetch_run :: "rsched list" where
  "refetch_run =
     [RCall 0 ''https://a/x'', RCall 1 ''https://a/y'',
      RResponse 0 (Status 200 (Inr bad_robots)), RAcquire 1,
      RResponse 1 (Status 200 (Inr bad_robots))]"

section \<open>The orchestrator\<close>

text \<open>
  The dictionary returned for one URL, with its keys \<open>url\<close>, \<open>ok\<close>, \<open>data\<close> and
  \<open>error\<close>; an absent key is \<open>None\<close>.
\<close>

record result =
  res_url :: string
  res_ok :: bool
  res_data :: "data option"
  res_error :: "string option"

text \<open>
  What the orchestrator meets outside: the answer to the request for each robots URL,
  and for task \<open>i\<close> and attempt \<open>k\<close> what the rate limiter's \<open>wait\<close> and the page
  request do.
\<close>

record environment =
  robots_get :: "string \<Rightarrow> robots_response"
  limiter_wait :: "nat \<Rightarrow> int \<Rightarrow> error option"
  page_get :: "nat \<Rightarrow> int \<Rightarrow> page_response"

text \<open>
  Lines 180 to 182 of \<open>_scrape_one\<close>: fetch with the default of three attempts, then
  extract.  An exception of either leaves the \<open>try\<close> body.
\<close>

definition fetch_and_parse ::
  "lib \<Rightarrow> bool \<Rightarrow> Selector list \<Rightarrow> environment \<Rightarrow> nat \<Rightarrow> string
     \<Rightarrow> (error + result) \<times> event list" where
  "fetch_and_parse lib rl selectors env i url =
     (case fetch (limiter_wait env i) (page_get env i) url 3 rl of
        (Inl e, fevs) \<Rightarrow> (Inl e, fevs)
      | (Inr html, fevs) \<Rightarrow>
          (case parse_html lib html selectors of
             Inl e \<Rightarrow> (Inl e, fevs)
           | Inr d \<Rightarrow>
               (Inr \<lparr>res_url = url, res_ok = True, res_data = Some d, res_error = None\<rparr>,
                fevs)))"

text \<open>
  The \<open>try\<close> body of \<open>_scrape_one\<close>.  \<open>robots\<close> is \<open>None\<close> or the user agent
  of the robots cache, whose table is threaded through.  An exception of the robots
  check leaves the body like any other.
\<close>

definition scrape_body ::
  "lib \<Rightarrow> string option \<Rightarrow> bool \<Rightarrow> Selector list \<Rightarrow> environment
     \<Rightarrow> (string \<rightharpoonup> RobotFileParser) \<Rightarrow> nat \<Rightarrow> string
     \<Rightarrow> (error + result) \<times> (string \<rightharpoonup> RobotFileParser) \<times> event list" where
  "scrape_body lib robots rl selectors env cache i url =
     (case robots of
        None \<Rightarrow>
          (case fetch_and_parse lib rl selectors env i url of (r, fevs) \<Rightarrow> (r, cache, fevs))
      | Some ua \<Rightarrow>
          (case can_fetch lib ua (robots_get env) cache url of
             (Inl e, cache', evs) \<Rightarrow> (Inl e, cache', evs)
           | (Inr allowed, cache', evs) \<Rightarrow>
               if \<not> allowed
               then (Inr \<lparr>res_url = url, res_ok = False, res_data = None,
                          res_error = Some ''Disallowed by robots.txt''\<rparr>, cache', evs)
               else (case fetch_and_parse lib rl selectors env i url of
                       (r, fevs) \<Rightarrow> (r, cache', evs @ fevs))))"

text \<open>\<open>_scrape_one\<close>: the body, with \<open>except Exception as e\<close> around it.\<close>

definition scrape_one ::
  "lib \<Rightarrow> string option \<Rightarrow> bool \<Rightarrow> Selector list \<Rightarrow> environment
     \<Rightarrow> (string \<rightharpoonup> RobotFileParser) \<Rightarrow> nat \<Rightarrow> string
     \<Rightarrow> result \<times> (string \<rightharpoonup> RobotFileParser) \<times> event list" where
  "scrape_one lib robots rl selectors env cache i url =
     (case scrape_body lib robots rl selectors env cache i url of
        (Inl e, cache', evs) \<Rightarrow>
          (\<lparr>res_url = url, res_ok = False, res_data = None, res_error = Some (exc_str e)\<rparr>,
           cache', evs)
      | (Inr r, cache', evs) \<Rightarrow> (r, cache', evs))"

text \<open>How a call ends: it returns a value, raises, or never returns.\<close>

datatype 'a outcome = Returns 'a | Raises error | Never

definition DEFAULT_HEADERS :: "(string \<times> string) list" where
  "DEFAULT_HEADERS =
     [(''User-Agent'',
       ''Mozilla/5.0 (Windows NT 10.0; Win64; x64) AppleWebKit/537.36 (KHTML, like Gecko) Chrome/120.0 Safari/537.36'')]"

text \<open>
  The tasks that \<open>gather\<close> runs.  They share the robots cache, and each touches it only
  inside \<open>can_fetch\<close>, under the lock, so for the results the tasks may be taken one
  after the other in the order \<open>sched\<close> in which the loop serves them; that order is
  arbitrary.  \<open>gather\<close> keeps one slot per awaitable, in the order of its arguments, and
  a finished task fills its own slot.  An index outside the list, or of a task that has
  finished, names no task.
\<close>

fun run_tasks ::
  "lib \<Rightarrow> string option \<Rightarrow> bool \<Rightarrow> Selector list \<Rightarrow> environment \<Rightarrow> string list
     \<Rightarrow> nat list \<Rightarrow> (string \<rightharpoonup> RobotFileParser) \<Rightarrow> result option list
     \<Rightarrow> result option list \<times> event list" where
  "run_tasks lib robots rl selectors env urls [] cache slots = (slots, [])"
| "run_tasks lib robots rl selectors env urls (i # sched) cache slots =
     (if i < length urls \<and> slots ! i = None
      then (case scrape_one lib robots rl selectors env cache i (urls ! i) of
              (r, cache', evs) \<Rightarrow>
                (case run_tasks lib robots rl selectors env urls sched cache' (slots[i := Some r]) of
                   (slots', evs') \<Rightarrow> (slots', evs @ evs')))
      else run_tasks lib robots rl selectors env urls sched cache slots)"

text \<open>\<open>gather\<close> returns the list of results once every slot is filled, and not before.\<close>

definition gather :: "result option list \<Rightarrow> result list outcome" where
  "gather slots = (if list_all (\<lambda>s. s \<noteq> None) slots then Returns (map the slots) else Never)"

text \<open>
  Lines 158 and 161 of \<open>scrape_many\<close>: \<open>headers or DEFAULT_HEADERS\<close>, where
  \<open>None\<close> and the empty dictionary count as false, and the robots cache, made with
  the user agent \<open>headers.get("User-Agent", "*")\<close> when robots are respected.
\<close>

definition headers_or_default :: "(string \<times> string) list option \<Rightarrow> (string \<times> string) list" where
  "headers_or_default headers =
     (case headers of
        None \<Rightarrow> DEFAULT_HEADERS
      | Some h \<Rightarrow> if h = [] then DEFAULT_HEADERS else h)"

definition robots_of :: "(string \<times> string) list option \<Rightarrow> bool \<Rightarrow> string option" where
  "robots_of headers respect_robots =
     (if respect_robots
      then Some (case map_of (headers_or_default headers) ''User-Agent'' of
                   None \<Rightarrow> ''*'' | Some ua \<Rightarrow> ua)
      else None)"

text \<open>
  \<open>scrape_many\<close>.  \<open>asyncio.Semaphore\<close> raises \<open>ValueError\<close> for a negative value.
  With the value 0 no task ever gets past \<open>async with semaphore\<close>, so if any task
  reaches \<open>fetch\<close> the gathering never ends.  With a positive value every task that
  waits for a unit gets one, since each holder gives it back after at most three
  attempts.  \<open>delay'\<close> and \<open>per_host'\<close> are the arguments \<open>delay\<close> and
  \<open>per_host\<close>; a rate limiter is made when the delay is positive.
\<close>

definition scrape_many ::
  "lib \<Rightarrow> environment \<Rightarrow> nat list \<Rightarrow> string list \<Rightarrow> Selector list \<Rightarrow> int
     \<Rightarrow> (string \<times> string) list option \<Rightarrow> real \<Rightarrow> bool \<Rightarrow> bool \<Rightarrow> result list outcome" where
  "scrape_many lib env sched urls selectors concurrency headers delay' per_host' respect_robots =
     (if concurrency < 0
      then Raises (Exc ''ValueError'' ''Semaphore initial value must be >= 0'')
      else
        case run_tasks lib (robots_of headers respect_robots) (0 < delay') selectors env urls
               sched Map.empty (replicate (length urls) None) of
          (slots, evs) \<Rightarrow>
            if concurrency = 0 \<and> SemAcquire \<in> set evs then Never else gather slots)"

text \<open>
  The result of a URL taken alone, with an empty cache, and a cache that agrees with the
  environment: what it holds for a host is the parser made from the answer for that
  host's robots URL.
\<close>

definition solo ::
  "lib \<Rightarrow> string option \<Rightarrow> bool \<Rightarrow> Selector list \<Rightarrow> environment \<Rightarrow> nat \<Rightarrow> string \<Rightarrow> result" where
  "solo lib robots rl selectors env i url =
     fst (scrape_one lib robots rl selectors env Map.empty i url)"

definition consistent :: "lib \<Rightarrow> environment \<Rightarrow> (string \<rightharpoonup> RobotFileParser) \<Rightarrow> bool" where
  "consistent lib env cache \<longleftrightarrow>
     (\<forall>h rp. cache h = Some rp \<longrightarrow>
        make_parser lib (robots_text (robots_get env (robots_url h))) = Inr rp)"

text \<open>
  The result the specification gives a URL from what happens to that URL alone: the
  robots check for it, the outcome of its own fetch, and the outcome of the extraction
  on its own body.  The cause of a failure is \<open>str(e)\<close> of the exception, or the fixed
  text for a URL that robots.txt disallows.
\<close>

definition allowed_alone :: "lib \<Rightarrow> string option \<Rightarrow> environment \<Rightarrow> string \<Rightarrow> error + bool" where
  "allowed_alone lib robots env url =
     (case robots of
        None \<Rightarrow> Inr True
      | Some ua \<Rightarrow> fst (can_fetch lib ua (robots_get env) Map.empty url))"

definition failed :: "string \<Rightarrow> string \<Rightarrow> result" where
  "failed url cause = \<lparr>res_url = url, res_ok = False, res_data = None, res_error = Some cause\<rparr>"

definition expected ::
  "lib \<Rightarrow> string option \<Rightarrow> bool \<Rightarrow> Selector list \<Rightarrow> environment \<Rightarrow> nat \<Rightarrow> string \<Rightarrow> result" where
  "expected lib robots rl selectors env i url =
     (case allowed_alone lib robots env url of
        Inl e \<Rightarrow> failed url (exc_str e)
      | Inr allowed \<Rightarrow>
          if \<not> allowed then failed url ''Disallowed by robots.txt''
          else case fst (fetch (limiter_wait env i) (page_get env i) url 3 rl) of
                 Inl e \<Rightarrow> failed url (exc_str e)
               | Inr html \<Rightarrow>
                   (case parse_html lib html selectors of
                      Inl e \<Rightarrow> failed url (exc_str e)
                    | Inr d \<Rightarrow>
                        \<lparr>res_url = url, res_ok = True, res_data = Some d, res_error = None\<rparr>))"

text \<open>
  A concrete batch: host \<open>a\<close> disallows \<open>/private\<close> for every agent, the robots.txt
  of host \<open>b\<close> cannot be fetched; the first page answers on the second attempt, the page
  of host \<open>b\<close> runs into the total timeout on every attempt, which raises
  \<open>TimeoutError\<close> without a message.
\<close>

definition demo_urls :: "string list" where
  "demo_urls = [''https://a/x'', ''https://a/private/y'', ''https://b/z'']"

definition demo_env :: environment where
  "demo_env =
     \<lparr>robots_get = (\<lambda>u. if u = ''https://a/robots.txt''
                         then Status 200 (Inr (''User-agent: *'' @ [CHR 0x0A] @ ''Disallow: /private''))
                         else GetRaises (Exc ''ClientConnectorError'' ''Cannot connect to host b'')),
      limiter_wait = (\<lambda>i k. None),
      page_get = (\<lambda>i k. if i = 0 \<and> k = 2
                         then PageStatus 200 (Exc ''ClientResponseError'' ''200'') (Inr ''<h1>A</h1>'')
                         else PageRaises (Exc ''TimeoutError'' ''''))\<rparr>"

section \<open>Properties of fetch\<close>

lemma attempts_none:
  "retries < a \<Longrightarrow> attempts waits pages url retries rl a b = (Inr None, [])"
  by (simp add: attempts.simps)

lemma attempts_ok:
  "a \<le> r \<Longrightarrow> fst (try_attempt (waits a) (pages a) url rl) = Inr body \<Longrightarrow>
   attempts waits pages url r rl a b =
     (Inr (Some body), Attempt a # snd (try_attempt (waits a) (pages a) url rl))"
  by (cases "try_attempt (waits a) (pages a) url rl") (simp add: attempts.simps)

lemma attempts_last:
  "fst (try_attempt (waits r) (pages r) url rl) = Inl e \<Longrightarrow>
   attempts waits pages url r rl r b =
     (Inl e, Attempt r # snd (try_attempt (waits r) (pages r) url rl))"
  by (cases "try_attempt (waits r) (pages r) url rl") (simp add: attempts.simps)

lemma attempts_retry:
  "a < r \<Longrightarrow> fst (try_attempt (waits a) (pages a) url rl) = Inl e \<Longrightarrow>
   attempts waits pages url r rl a b =
     (fst (attempts waits pages url r rl (a + 1) (b * 2)),
      Attempt a # snd (try_attempt (waits a) (pages a) url rl) @ [Sleep b]
        @ snd (attempts waits pages url r rl (a + 1) (b * 2)))"
  by (cases "try_attempt (waits a) (pages a) url rl")
     (subst attempts.simps, simp add: case_prod_beta)

lemma sleeps_append [simp]: "sleeps (xs @ ys) = sleeps xs @ sleeps ys"
  by (induction xs rule: sleeps.induct) simp_all

lemma attempt_nos_append [simp]: "attempt_nos (xs @ ys) = attempt_nos xs @ attempt_nos ys"
  by (induction xs rule: attempt_nos.induct) simp_all

lemma try_attempt_plain [simp]:
  "sleeps (snd (try_attempt w p url rl)) = []"
  "attempt_nos (snd (try_attempt w p url rl)) = []"
  "filter is_sem (snd (try_attempt w p url rl)) = []"
  by (simp_all add: try_attempt_def split: option.splits)

lemma failing_iff: "failing w p rl \<longleftrightarrow> isl (fst (try_attempt w p url rl))"
  by (auto simp: failing_def try_attempt_def request_def split: option.splits page_response.splits)

lemma attempts_not_none:
  "a \<le> retries \<Longrightarrow> fst (attempts waits pages url retries rl a b) \<noteq> Inr None"
proof (induction waits pages url retries rl a b rule: attempts.induct)
  case (1 waits pages url retries rl attempt backoff)
  show ?case
  proof (cases "fst (try_attempt (waits attempt) (pages attempt) url rl)")
    case (Inr body)
    with "1.prems" show ?thesis by (simp add: attempts_ok)
  next
    case (Inl e)
    show ?thesis
    proof (cases "attempt = retries")
      case True
      with Inl show ?thesis by (simp add: attempts_last)
    next
      case False
      with "1.prems" have le: "attempt + 1 \<le> retries" by simp
      obtain evs where ta: "try_attempt (waits attempt) (pages attempt) url rl = (Inl e, evs)"
        using Inl by (cases "try_attempt (waits attempt) (pages attempt) url rl") simp
      have "fst (attempts waits pages url retries rl (attempt + 1) (backoff * 2)) \<noteq> Inr None"
        using "1.IH" [OF _ ta [symmetric] _ False le] "1.prems" by simp
      with Inl False "1.prems" show ?thesis
        by (simp add: attempts_retry)
    qed
  qed
qed

lemma attempts_fail_until:
  "a \<le> j \<Longrightarrow> j \<le> r \<Longrightarrow>
   (\<And>k. a \<le> k \<Longrightarrow> k < j \<Longrightarrow> isl (fst (try_attempt (waits k) (pages k) url rl))) \<Longrightarrow>
   (isl (fst (try_attempt (waits j) (pages j) url rl)) \<Longrightarrow> j = r) \<Longrightarrow>
   attempts waits pages url r rl a b =
     ((case fst (try_attempt (waits j) (pages j) url rl) of
         Inl e \<Rightarrow> Inl e | Inr body \<Rightarrow> Inr (Some body)),
      concat (map (\<lambda>k. Attempt k # snd (try_attempt (waits k) (pages k) url rl)
                         @ [Sleep (b * 2 ^ nat (k - a))]) [a..j - 1])
      @ Attempt j # snd (try_attempt (waits j) (pages j) url rl))"
proof (induction waits pages url r rl a b rule: attempts.induct)
  case (1 waits pages url retries rl attempt backoff)
  let ?att = "\<lambda>k. try_attempt (waits k) (pages k) url rl"
  show ?case
  proof (cases "attempt = j")
    case True
    show ?thesis
    proof (cases "fst (?att j)")
      case (Inl e)
      with "1.prems"(4) have "j = retries" by simp
      with True Inl show ?thesis by (simp add: attempts_last)
    next
      case (Inr body)
      with True "1.prems"(2) show ?thesis by (simp add: attempts_ok)
    qed
  next
    case False
    with "1.prems" have lt: "attempt < j" by simp
    then have "isl (fst (?att attempt))" using "1.prems" by simp
    then obtain e where here: "fst (?att attempt) = Inl e"
      by (cases "fst (?att attempt)") auto
    then obtain evs where ta: "?att attempt = (Inl e, evs)"
      by (cases "?att attempt") simp
    from lt "1.prems" have ne: "attempt \<noteq> retries" and nlt: "\<not> retries < attempt" by simp_all
    let ?rec = "attempts waits pages url retries rl (attempt + 1) (backoff * 2)"
    have IH: "?rec =
      ((case fst (?att j) of Inl e \<Rightarrow> Inl e | Inr body \<Rightarrow> Inr (Some body)),
       concat (map (\<lambda>k. Attempt k # snd (?att k)
                          @ [Sleep ((backoff * 2) * 2 ^ nat (k - (attempt + 1)))])
                 [attempt + 1..j - 1])
       @ Attempt j # snd (?att j))"
      using "1.IH" [OF nlt ta [symmetric] _ ne] lt "1.prems" by simp
    have pw: "map (\<lambda>k. Attempt k # snd (?att k)
                         @ [Sleep ((backoff * 2) * 2 ^ nat (k - (attempt + 1)))])
                [attempt + 1..j - 1]
            = map (\<lambda>k. Attempt k # snd (?att k) @ [Sleep (backoff * 2 ^ nat (k - attempt))])
                [attempt + 1..j - 1]"
    proof (rule map_cong [OF refl])
      fix k assume "k \<in> set [attempt + 1..j - 1]"
      then have "attempt + 1 \<le> k" by simp
      then have "nat (k - attempt) = Suc (nat (k - (attempt + 1)))" by arith
      then show "Attempt k # snd (?att k) @ [Sleep ((backoff * 2) * 2 ^ nat (k - (attempt + 1)))]
               = Attempt k # snd (?att k) @ [Sleep (backoff * 2 ^ nat (k - attempt))]"
        by simp
    qed
    have up: "[attempt..j - 1] = attempt # [attempt + 1..j - 1]"
      using lt by (simp add: upto_rec1)
    have unf: "attempts waits pages url retries rl attempt backoff =
       (fst ?rec, Attempt attempt # snd (?att attempt) @ [Sleep backoff] @ snd ?rec)"
      using lt "1.prems"(2) here by (simp add: attempts_retry)
    show ?thesis
      unfolding unf IH pw up by simp
  qed
qed

lemma trace_shape:
  fixes f :: "int \<Rightarrow> real"
  shows "sleeps (concat (map (\<lambda>k. Attempt k # snd (try_attempt (w k) (p k) url rl) @ [Sleep (f k)]) ks))
           = map f ks"
    and "attempt_nos (concat (map (\<lambda>k. Attempt k # snd (try_attempt (w k) (p k) url rl) @ [Sleep (f k)]) ks))
           = ks"
    and "filter is_sem (concat (map (\<lambda>k. Attempt k # snd (try_attempt (w k) (p k) url rl) @ [Sleep (f k)]) ks))
           = []"
  by (induction ks) simp_all

lemma sleeps_retry_trace:
  "sleeps (retry_trace waits pages url rl j) = map (\<lambda>k. 2 ^ nat (k - 1)) [1..j - 1]"
  by (simp add: retry_trace_def trace_shape)

lemma attempt_nos_retry_trace: "1 \<le> j \<Longrightarrow> attempt_nos (retry_trace waits pages url rl j) = [1..j]"
proof -
  assume "1 \<le> j"
  then have "[1..j] = [1..j - 1] @ [j]"
    using upto_rec2 [of 1 j] by simp
  then show ?thesis by (simp add: retry_trace_def trace_shape)
qed

lemma sem_retry_trace: "filter is_sem (retry_trace waits pages url rl j) = []"
  by (simp add: retry_trace_def trace_shape)

lemma fetch_fail_until:
  assumes "1 \<le> j" "j \<le> r"
    "\<And>k. 1 \<le> k \<Longrightarrow> k < j \<Longrightarrow> failing (waits k) (pages k) rl"
    "failing (waits j) (pages j) rl \<Longrightarrow> j = r"
  shows "fetch waits pages url r rl =
     ((case fst (try_attempt (waits j) (pages j) url rl) of
         Inl e \<Rightarrow> Inl e | Inr body \<Rightarrow> Inr (Some body)),
      [SemAcquire] @ retry_trace waits pages url rl j @ [SemRelease])"
proof -
  have a: "\<And>k. 1 \<le> k \<Longrightarrow> k < j \<Longrightarrow> isl (fst (try_attempt (waits k) (pages k) url rl))"
    using assms(3) failing_iff [of _ _ rl url] by blast
  have b: "isl (fst (try_attempt (waits j) (pages j) url rl)) \<Longrightarrow> j = r"
    using assms(4) failing_iff [of _ _ rl url] by blast
  from attempts_fail_until [of 1 j r waits pages url rl 1, OF assms(1,2) a b]
  show ?thesis by (simp add: fetch_def retry_trace_def)
qed

text \<open>
  Claim C4 as the code has it.  Let \<open>r \<ge> 1\<close> be the retry count and let an attempt
  fail when the limiter raises, the request raises, the status is 400 or more, or the
  body cannot be read.  If every attempt \<open>1 .. r\<close> fails, fetch makes exactly the passes
  \<open>1 .. r\<close> through the loop, sleeps \<open>2 ^ (k - 1)\<close> seconds between pass \<open>k\<close> and
  pass \<open>k + 1\<close> (1, 2, 4, ...), and raises the exception of pass \<open>r\<close>.  If attempt
  \<open>j \<le> r\<close> is the first that does not fail, its response has a status below 400 and
  fetch returns its body after exactly the passes \<open>1 .. j\<close>, with the same sleeps
  between them and nothing after pass \<open>j\<close> but the release of the semaphore.
\<close>

theorem fetch_retry_schedule:
  assumes "1 \<le> r"
  shows "((\<forall>k. 1 \<le> k \<and> k \<le> r \<longrightarrow> failing (waits k) (pages k) rl) \<longrightarrow>
            (\<exists>e. fst (try_attempt (waits r) (pages r) url rl) = Inl e
                \<and> fetch waits pages url r rl =
                    (Inl e, [SemAcquire] @ retry_trace waits pages url rl r @ [SemRelease]))
          \<and> attempt_nos (snd (fetch waits pages url r rl)) = [1..r]
          \<and> sleeps (snd (fetch waits pages url r rl)) = map (\<lambda>k. 2 ^ nat (k - 1)) [1..r - 1])
       \<and> (1 \<le> j \<and> j \<le> r \<and> (\<forall>k. 1 \<le> k \<and> k < j \<longrightarrow> failing (waits k) (pages k) rl)
            \<and> \<not> failing (waits j) (pages j) rl \<longrightarrow>
            (\<exists>s e body. pages j = PageStatus s e (Inr body) \<and> s < 400
                \<and> fetch waits pages url r rl =
                    (Inr (Some body), [SemAcquire] @ retry_trace waits pages url rl j @ [SemRelease]))
          \<and> attempt_nos (snd (fetch waits pages url r rl)) = [1..j]
          \<and> sleeps (snd (fetch waits pages url r rl)) = map (\<lambda>k. 2 ^ nat (k - 1)) [1..j - 1])"
proof (intro conjI impI)
  assume fail: "\<forall>k. 1 \<le> k \<and> k \<le> r \<longrightarrow> failing (waits k) (pages k) rl"
  then have "failing (waits r) (pages r) rl" using assms by simp
  then obtain e where e: "fst (try_attempt (waits r) (pages r) url rl) = Inl e"
    using failing_iff [of "waits r" "pages r" rl url] by (auto simp: isl_def)
  have "\<And>k. 1 \<le> k \<Longrightarrow> k < r \<Longrightarrow> failing (waits k) (pages k) rl" using fail by simp
  from fetch_fail_until [of r r waits pages rl url, OF assms _ this] e
  have f: "fetch waits pages url r rl =
      (Inl e, [SemAcquire] @ retry_trace waits pages url rl r @ [SemRelease])"
    by simp
  with e show "\<exists>e. fst (try_attempt (waits r) (pages r) url rl) = Inl e
                \<and> fetch waits pages url r rl =
                    (Inl e, [SemAcquire] @ retry_trace waits pages url rl r @ [SemRelease])"
    by blast
  show "attempt_nos (snd (fetch waits pages url r rl)) = [1..r]"
    unfolding f using assms by (simp add: attempt_nos_retry_trace)
  show "sleeps (snd (fetch waits pages url r rl)) = map (\<lambda>k. 2 ^ nat (k - 1)) [1..r - 1]"
    unfolding f by (simp add: sleeps_retry_trace)
next
  assume h: "1 \<le> j \<and> j \<le> r \<and> (\<forall>k. 1 \<le> k \<and> k < j \<longrightarrow> failing (waits k) (pages k) rl)
            \<and> \<not> failing (waits j) (pages j) rl"
  then have nf: "\<not> failing (waits j) (pages j) rl" by simp
  have "\<exists>s e body. pages j = PageStatus s e (Inr body) \<and> s < 400"
  proof (cases "pages j")
    case (PageRaises e)
    with nf show ?thesis by (simp add: failing_def)
  next
    case (PageStatus s e t)
    with nf have "s < 400" "\<not> isl t" by (simp_all add: failing_def)
    with PageStatus show ?thesis by (cases t) simp_all
  qed
  then obtain s e body where p: "pages j = PageStatus s e (Inr body)" "s < 400"
    by blast
  from h have w: "rl \<longrightarrow> waits j = None" by (simp add: failing_def)
  from p w have t: "fst (try_attempt (waits j) (pages j) url rl) = Inr body"
    by (auto simp: try_attempt_def request_def)
  from h have "\<And>k. 1 \<le> k \<Longrightarrow> k < j \<Longrightarrow> failing (waits k) (pages k) rl" by simp
  from fetch_fail_until [of j r waits pages rl url, OF _ _ this] h t
  have f: "fetch waits pages url r rl =
      (Inr (Some body), [SemAcquire] @ retry_trace waits pages url rl j @ [SemRelease])"
    by simp
  with p show "\<exists>s e body. pages j = PageStatus s e (Inr body) \<and> s < 400
                \<and> fetch waits pages url r rl =
                    (Inr (Some body), [SemAcquire] @ retry_trace waits pages url rl j @ [SemRelease])"
    by blast
  show "attempt_nos (snd (fetch waits pages url r rl)) = [1..j]"
    unfolding f using h by (simp add: attempt_nos_retry_trace)
  show "sleeps (snd (fetch waits pages url r rl)) = map (\<lambda>k. 2 ^ nat (k - 1)) [1..j - 1]"
    unfolding f by (simp add: sleeps_retry_trace)
qed

text \<open>
  Claim C4 counts every status outside 200 to 299 as a failed attempt.  With three
  attempts allowed and a server that answers 304 every time, fetch returns the body of
  the first answer and makes no second attempt.
\<close>

theorem non_2xx_retried_counterexample:
  "fetch (\<lambda>k. None)
     (\<lambda>k. PageStatus 304 (Exc ''ClientResponseError'' ''304, message=Not Modified'') (Inr ''''))
     ''http://a/x'' 3 False
   = (Inr (Some ''''), [SemAcquire, Attempt 1, HttpGet ''http://a/x'', SemRelease])"
  by (simp add: fetch_def attempts.simps try_attempt_def request_def)

theorem fetch_retry_schedule_witness:
  "(1::int) \<le> 3
   \<and> fetch (\<lambda>k. None)
        (\<lambda>k. PageStatus 503 (Exc ''ClientResponseError'' ''503, message=Service Unavailable'') (Inr ''busy''))
        ''http://a/x'' 3 False =
       (Inl (Exc ''ClientResponseError'' ''503, message=Service Unavailable''),
        [SemAcquire, Attempt 1, HttpGet ''http://a/x'', Sleep 1,
         Attempt 2, HttpGet ''http://a/x'', Sleep 2,
         Attempt 3, HttpGet ''http://a/x'', SemRelease])
   \<and> fetch (\<lambda>k. if k = 1 then Some (Exc ''ValueError'' ''limiter'') else None)
        (\<lambda>k. if k = 3 then PageStatus 200 (Exc ''ClientResponseError'' ''200, message=OK'') (Inr ''<html>'')
             else PageRaises (Exc ''TimeoutError'' ''''))
        ''http://a/x'' 3 True =
       (Inr (Some ''<html>''),
        [SemAcquire, Attempt 1, RateWait ''http://a/x'', Sleep 1,
         Attempt 2, RateWait ''http://a/x'', HttpGet ''http://a/x'', Sleep 2,
         Attempt 3, RateWait ''http://a/x'', HttpGet ''http://a/x'', SemRelease])"
proof -
  have h: "(1::int) \<le> 3" by simp
  have u: "[1..(2::int)] = [1, 2]" by (simp add: upto.simps)
  let ?w1 = "\<lambda>k::int. None :: error option"
  let ?p1 = "\<lambda>k::int. PageStatus 503 (Exc ''ClientResponseError'' ''503, message=Service Unavailable'') (Inr ''busy'')"
  let ?w2 = "\<lambda>k::int. if k = 1 then Some (Exc ''ValueError'' ''limiter'') else None"
  let ?p2 = "\<lambda>k::int. if k = 3 then PageStatus 200 (Exc ''ClientResponseError'' ''200, message=OK'') (Inr ''<html>'')
             else PageRaises (Exc ''TimeoutError'' '''')"
  have f1: "\<forall>k. 1 \<le> k \<and> k \<le> 3 \<longrightarrow> failing (?w1 k) (?p1 k) False"
    by (simp add: failing_def)
  have f2: "1 \<le> (3::int) \<and> (3::int) \<le> 3 \<and> (\<forall>k. 1 \<le> k \<and> k < 3 \<longrightarrow> failing (?w2 k) (?p2 k) True)
            \<and> \<not> failing (?w2 3) (?p2 3) True"
    by (simp add: failing_def)
  note a = fetch_retry_schedule [OF h, of ?w1 ?p1 False "''http://a/x''" 3,
      THEN conjunct1, THEN mp, OF f1, THEN conjunct1]
  note b = fetch_retry_schedule [OF h, of ?w2 ?p2 True "''http://a/x''" 3,
      THEN conjunct2, THEN mp, OF f2, THEN conjunct1]
  from a have 1: "fetch ?w1 ?p1 ''http://a/x'' 3 False =
       (Inl (Exc ''ClientResponseError'' ''503, message=Service Unavailable''),
        [SemAcquire, Attempt 1, HttpGet ''http://a/x'', Sleep 1,
         Attempt 2, HttpGet ''http://a/x'', Sleep 2,
         Attempt 3, HttpGet ''http://a/x'', SemRelease])"
    by (auto simp: retry_trace_def try_attempt_def request_def u)
  from b have 2: "fetch ?w2 ?p2 ''http://a/x'' 3 True =
       (Inr (Some ''<html>''),
        [SemAcquire, Attempt 1, RateWait ''http://a/x'', Sleep 1,
         Attempt 2, RateWait ''http://a/x'', HttpGet ''http://a/x'', Sleep 2,
         Attempt 3, RateWait ''http://a/x'', HttpGet ''http://a/x'', SemRelease])"
    by (auto simp: retry_trace_def try_attempt_def request_def u)
  from h 1 2 show ?thesis by blast
qed

text \<open>
  Claim C10.  With \<open>retries \<le> 0\<close> the loop body never runs: fetch acquires and releases
  the semaphore, issues no request and returns \<open>None\<close>.  With \<open>retries \<ge> 1\<close> it never
  returns \<open>None\<close>: it returns a body or raises.
\<close>

theorem fetch_nonpositive_retries:
  "(retries \<le> 0 \<longrightarrow> fetch waits pages url retries rl = (Inr None, [SemAcquire, SemRelease]))
   \<and> (1 \<le> retries \<longrightarrow> fst (fetch waits pages url retries rl) \<noteq> Inr None)"
proof (intro conjI impI)
  assume "retries \<le> 0"
  then show "fetch waits pages url retries rl = (Inr None, [SemAcquire, SemRelease])"
    by (simp add: fetch_def attempts_none)
next
  assume "1 \<le> retries"
  then have "fst (attempts waits pages url retries rl 1 1) \<noteq> Inr None"
    by (rule attempts_not_none)
  then show "fst (fetch waits pages url retries rl) \<noteq> Inr None"
    by (simp add: fetch_def case_prod_beta)
qed

theorem fetch_nonpositive_retries_witness:
  "(0::int) \<le> 0
   \<and> fetch (\<lambda>k. None) (\<lambda>k. PageStatus 200 (Exc ''ClientResponseError'' ''200'') (Inr ''<html>''))
        ''http://a/x'' 0 False = (Inr None, [SemAcquire, SemRelease])
   \<and> (1::int) \<le> 1
   \<and> fst (fetch (\<lambda>k. None) (\<lambda>k. PageStatus 200 (Exc ''ClientResponseError'' ''200'') (Inr ''<html>''))
        ''http://a/x'' 1 False) \<noteq> Inr None"
  using fetch_nonpositive_retries [of 0 "\<lambda>k. None"
          "\<lambda>k. PageStatus 200 (Exc ''ClientResponseError'' ''200'') (Inr ''<html>'')" "''http://a/x''" False]
        fetch_nonpositive_retries [of 1 "\<lambda>k. None"
          "\<lambda>k. PageStatus 200 (Exc ''ClientResponseError'' ''200'') (Inr ''<html>'')" "''http://a/x''" False]
  by simp

section \<open>Properties of RateLimiter.wait\<close>


lemma reserve_fields [simp]:
  "delay (reserve rl h now) = delay rl" "per_host (reserve rl h now) = per_host rl"
  by (simp_all add: reserve_def)

lemma next_ready_reserve_same: "next_ready (reserve rl h now) h = now + delay rl"
  by (simp add: next_ready_def reserve_def)

lemma next_ready_reserve_mono:
  "next_ready rl h \<le> now \<Longrightarrow> 0 \<le> delay rl \<Longrightarrow> next_ready rl h' \<le> next_ready (reserve rl h now) h'"
  by (auto simp: next_ready_def reserve_def split: option.splits)

lemma grant_inv:
  assumes inv: "limiter_inv d ph w" and d: "0 < d" and nr: "next_ready (limiter w) h \<le> now"
    and ns: "\<forall>t' h' u'. t' \<noteq> t \<longrightarrow> pcs w t' \<noteq> Sleeping h' u'"
  shows "limiter_inv d ph (w\<lparr>limiter := reserve (limiter w) h now, lock := None,
            pcs := (pcs w)(t := Idle), granted := (h, now) # granted w\<rparr>)"
proof -
  have dl: "delay (limiter w) = d" using inv by (simp add: limiter_inv_def)
  have mono: "\<And>h'. next_ready (limiter w) h' \<le> next_ready (reserve (limiter w) h now) h'"
    using next_ready_reserve_mono [OF nr] dl d by simp
  have old: "\<And>p. p \<in> set (granted w) \<Longrightarrow> snd p + d \<le> next_ready (reserve (limiter w) h now) (fst p)"
  proof -
    fix p assume "p \<in> set (granted w)"
    then have "snd p + d \<le> next_ready (limiter w) (fst p)" using inv by (simp add: limiter_inv_def)
    with mono [of "fst p"] show "snd p + d \<le> next_ready (reserve (limiter w) h now) (fst p)" by simp
  qed
  show ?thesis
    using inv ns old dl by (auto simp: limiter_inv_def next_ready_reserve_same)
qed

lemma locked_section_inv:
  assumes inv: "limiter_inv d ph w" and d: "0 < d" and free: "lock w = None"
  shows "limiter_inv d ph (locked_section t host w)"
proof (cases "clock w < next_ready (limiter w) host")
  case True
  have ns: "\<And>t' h' u'. pcs w t' \<noteq> Sleeping h' u'"
    using inv free by (auto simp: limiter_inv_def)
  with True inv show ?thesis
    by (auto simp: locked_section_def Let_def limiter_inv_def)
next
  case False
  have ns: "\<forall>t' h' u'. t' \<noteq> t \<longrightarrow> pcs w t' \<noteq> Sleeping h' u'"
    using inv free by (auto simp: limiter_inv_def)
  from False have "next_ready (limiter w) host \<le> clock w" by simp
  from grant_inv [OF inv d this ns] False show ?thesis
    by (simp add: locked_section_def Let_def)
qed

lemma after_sleep_inv:
  assumes inv: "limiter_inv d ph w" and d: "0 < d" and pc: "pcs w t = Sleeping host u" and up: "u \<le> clock w"
  shows "limiter_inv d ph (after_sleep t host w)"
proof -
  have lk: "lock w = Some t" and nr: "next_ready (limiter w) host \<le> u"
    using inv pc by (auto simp: limiter_inv_def)
  have ns: "\<forall>t' h' u'. t' \<noteq> t \<longrightarrow> pcs w t' \<noteq> Sleeping h' u'"
    using inv lk by (auto simp: limiter_inv_def)
  from nr up have "next_ready (limiter w) host \<le> clock w" by simp
  from grant_inv [OF inv d this ns] show ?thesis
    by (simp add: after_sleep_def Let_def)
qed

lemma rl_step_inv:
  assumes inv: "limiter_inv d ph w" and d: "0 < d"
  shows "limiter_inv d ph (rl_step netloc e w)"
proof (cases e)
  case (Tick x)
  with inv show ?thesis by (auto simp: limiter_inv_def)
next
  case (Call t url)
  show ?thesis
  proof (cases "pcs w t = Idle \<and> \<not> delay (limiter w) \<le> 0")
    case False
    with Call inv show ?thesis by auto
  next
    case True
    show ?thesis
    proof (cases "lock w")
      case None
      with Call True locked_section_inv [OF inv d None] show ?thesis by (simp add: Let_def)
    next
      case (Some t')
      with Call True inv show ?thesis by (auto simp: Let_def limiter_inv_def)
    qed
  qed
next
  case (Acquire t)
  with locked_section_inv [OF inv d] inv show ?thesis
    by (auto split: pc.splits)
next
  case (Wake t)
  with after_sleep_inv [OF inv d] inv show ?thesis
    by (auto split: pc.splits)
qed

lemma rl_run_inv:
  "limiter_inv d ph w \<Longrightarrow> 0 < d \<Longrightarrow> limiter_inv d ph (rl_run netloc es w)"
  by (induction es arbitrary: w) (simp_all add: rl_step_inv)

lemma rl_start_inv: "0 < d \<Longrightarrow> limiter_inv d ph (rl_start d ph t0)"
  by (simp add: limiter_inv_def rl_start_def RateLimiter_init_def)


lemma rl_step_granted:
  assumes inv: "limiter_inv d ph w"
  shows "granted (rl_step netloc e w) = granted w
       \<or> (\<exists>h now. granted (rl_step netloc e w) = (h, now) # granted w
                   \<and> next_ready (limiter w) h \<le> now)"
proof (cases e)
  case (Tick x)
  then show ?thesis by simp
next
  case (Call t url)
  then show ?thesis by (auto simp: Let_def locked_section_def)
next
  case (Acquire t)
  then show ?thesis by (auto simp: Let_def locked_section_def split: pc.splits)
next
  case (Wake t)
  show ?thesis
  proof (cases "pcs w t")
    case (Sleeping host u)
    then have "next_ready (limiter w) host \<le> u" using inv by (simp add: limiter_inv_def)
    with Wake Sleeping show ?thesis by (auto simp: after_sleep_def Let_def)
  qed (use Wake in simp_all)
qed

lemma spaced_grant:
  assumes sp: "spaced d (grants_of s g)"
    and old: "\<forall>p \<in> set g. fst p = h \<longrightarrow> snd p + d \<le> now"
  shows "spaced d (grants_of s ((h, now) # g))"
proof (cases "h = s")
  case False
  with sp show ?thesis by (simp add: grants_of_def)
next
  case True
  show ?thesis
  proof (cases "grants_of s g")
    case Nil
    with True show ?thesis by (simp add: grants_of_def)
  next
    case (Cons t1 ts)
    then have "t1 \<in> set (grants_of s g)" by simp
    then obtain p where "p \<in> set g" "fst p = s" "snd p = t1"
      by (auto simp: grants_of_def)
    with old True have "t1 + d \<le> now" by auto
    moreover have "grants_of s ((h, now) # g) = now # t1 # ts"
      using True Cons by (simp add: grants_of_def)
    ultimately show ?thesis using sp Cons by simp
  qed
qed

lemma rl_step_spaced:
  assumes inv: "limiter_inv d ph w" and sp: "spaced d (grants_of s (granted w))"
  shows "spaced d (grants_of s (granted (rl_step netloc e w)))"
proof -
  from rl_step_granted [OF inv, of netloc e]
  consider "granted (rl_step netloc e w) = granted w"
    | h now where "granted (rl_step netloc e w) = (h, now) # granted w"
                  "next_ready (limiter w) h \<le> now"
    by blast
  then show ?thesis
  proof cases
    case 1
    with sp show ?thesis by simp
  next
    case 2
    have "\<forall>p \<in> set (granted w). fst p = h \<longrightarrow> snd p + d \<le> now"
    proof (intro ballI impI)
      fix p assume "p \<in> set (granted w)" "fst p = h"
      then have "snd p + d \<le> next_ready (limiter w) h" using inv by (auto simp: limiter_inv_def)
      with 2(2) show "snd p + d \<le> now" by simp
    qed
    from spaced_grant [OF sp this] 2(1) show ?thesis by simp
  qed
qed

lemma rl_run_spaced:
  "limiter_inv d ph w \<Longrightarrow> 0 < d \<Longrightarrow> spaced d (grants_of s (granted w)) \<Longrightarrow>
   spaced d (grants_of s (granted (rl_run netloc es w)))"
  by (induction es arbitrary: w) (simp_all add: rl_step_inv rl_step_spaced)

text \<open>
  Claim C1.  With a delay \<open>d > 0\<close>, in per-host or global mode, whatever the event loop
  does with any number of tasks calling \<open>wait\<close>, the instants at which calls for one
  scope are let through are at least \<open>d\<close> apart, each from the one before.  Time is
  the loop's clock, which never runs backwards, and a sleep does not end before its time.
\<close>

theorem wait_spacing:
  assumes "0 < d"
  shows "spaced d (grants_of s (granted (rl_run netloc es (rl_start d ph t0))))"
proof -
  have "spaced d (grants_of s (granted (rl_start d ph t0)))"
    by (simp add: rl_start_def grants_of_def)
  with rl_start_inv [OF assms] assms show ?thesis by (rule rl_run_spaced)
qed

lemma netloc_simple_a [simp]: "netloc_simple ''http://a/x'' = ''a''" "netloc_simple ''http://a/y'' = ''a''"
  "netloc_simple ''http://b/z'' = ''b''"
  by (simp_all add: netloc_simple_def)

theorem wait_spacing_witness:
  "(0::real) < 5 \<and>
   grants_of ''a'' (granted (rl_run netloc_simple
      [Call 0 ''http://a/x'', Call 1 ''http://a/y'', Call 2 ''http://b/z'', Tick 7, Wake 1, Acquire 2]
      (rl_start 5 True 100))) = [107, 100]
   \<and> spaced 5 [107, 100]"
proof -
  have d: "(0::real) < 5" by simp
  have g: "grants_of ''a'' (granted (rl_run netloc_simple
      [Call 0 ''http://a/x'', Call 1 ''http://a/y'', Call 2 ''http://b/z'', Tick 7, Wake 1, Acquire 2]
      (rl_start 5 True 100))) = [107, 100]"
    by (simp add: rl_start_def RateLimiter_init_def scope_key_def grants_of_def
        locked_section_def after_sleep_def next_ready_def reserve_def Let_def)
  from wait_spacing [OF d, of "''a''" netloc_simple
      "[Call 0 ''http://a/x'', Call 1 ''http://a/y'', Call 2 ''http://b/z'', Tick 7, Wake 1, Acquire 2]" True 100]
  show ?thesis unfolding g using d g by simp
qed

text \<open>
  Claim C9 says that the caller leaves the lock before it sleeps.  In the schedule above
  task 1 is asleep until time 105 and is the task inside the lock, and task 2, whose
  scope \<open>b\<close> is free, stays queued for the lock when it is resumed.
\<close>

theorem sleep_outside_lock_counterexample:
  "pcs (rl_run netloc_simple blocked_run (rl_start 5 True 100)) 1 = Sleeping ''a'' 105
   \<and> lock (rl_run netloc_simple blocked_run (rl_start 5 True 100)) = Some 1
   \<and> pcs (rl_run netloc_simple blocked_run (rl_start 5 True 100)) 2 = WaitLock ''b''
   \<and> next_ready (limiter (rl_run netloc_simple blocked_run (rl_start 5 True 100))) ''b'' = 0"
  by (simp add: blocked_run_def rl_start_def RateLimiter_init_def scope_key_def
        locked_section_def next_ready_def reserve_def Let_def)

text \<open>
  Claim C9 as the code has it.  With \<open>d > 0\<close>, a caller that found the clock before
  its scope's time sleeps inside the lock, at least until that time.  While it sleeps no
  other step of the loop takes the lock or lets a call through, for any scope.  When its
  sleep is over it reads the clock again, sets the scope's time to that reading plus
  \<open>d\<close>, and only then leaves the lock.
\<close>

theorem sleep_inside_lock:
  assumes "0 < d" and "w = rl_run netloc es (rl_start d ph t0)" and "pcs w t = Sleeping h u"
  shows "lock w = Some t
       \<and> next_ready (limiter w) h \<le> u
       \<and> (\<forall>e. e \<noteq> Wake t \<longrightarrow> lock (rl_step netloc e w) = Some t
                               \<and> granted (rl_step netloc e w) = granted w)
       \<and> (u \<le> clock w \<longrightarrow>
            lock (rl_step netloc (Wake t) w) = None
          \<and> next_ready (limiter (rl_step netloc (Wake t) w)) h = clock w + d
          \<and> granted (rl_step netloc (Wake t) w) = (h, clock w) # granted w)"
proof -
  have inv: "limiter_inv d ph w"
    unfolding assms(2) using rl_start_inv [OF assms(1)] assms(1) by (rule rl_run_inv)
  have lk: "lock w = Some t" and nr: "next_ready (limiter w) h \<le> u" and dl: "delay (limiter w) = d"
    using inv assms(3) by (auto simp: limiter_inv_def)
  have others: "lock (rl_step netloc e w) = Some t \<and> granted (rl_step netloc e w) = granted w"
    if "e \<noteq> Wake t" for e
  proof (cases e)
    case (Tick x)
    with lk show ?thesis by simp
  next
    case (Call t' url)
    with lk show ?thesis by (simp add: Let_def)
  next
    case (Acquire t')
    with lk show ?thesis by (simp split: pc.splits)
  next
    case (Wake t')
    with that have "t' \<noteq> t" by simp
    then have "\<And>h' u'. pcs w t' \<noteq> Sleeping h' u'"
      using inv lk by (auto simp: limiter_inv_def)
    with Wake lk show ?thesis by (simp split: pc.splits)
  qed
  have wake: "lock (rl_step netloc (Wake t) w) = None
          \<and> next_ready (limiter (rl_step netloc (Wake t) w)) h = clock w + d
          \<and> granted (rl_step netloc (Wake t) w) = (h, clock w) # granted w" if "u \<le> clock w"
    using that assms(3) dl by (simp add: after_sleep_def Let_def next_ready_reserve_same)
  from lk nr others wake show ?thesis by blast
qed

theorem sleep_inside_lock_witness:
  "(0::real) < 5
   \<and> pcs (rl_run netloc_simple blocked_run (rl_start 5 True 100)) 1 = Sleeping ''a'' 105
   \<and> lock (rl_run netloc_simple blocked_run (rl_start 5 True 100)) = Some 1
   \<and> lock (rl_step netloc_simple (Acquire 2) (rl_run netloc_simple blocked_run (rl_start 5 True 100))) = Some 1"
proof -
  have d: "(0::real) < 5" by simp
  have pc: "pcs (rl_run netloc_simple blocked_run (rl_start 5 True 100)) 1 = Sleeping ''a'' 105"
    by (simp add: blocked_run_def rl_start_def RateLimiter_init_def scope_key_def
        locked_section_def next_ready_def reserve_def Let_def)
  note th = sleep_inside_lock [OF d refl pc]
  from th have lk: "lock (rl_run netloc_simple blocked_run (rl_start 5 True 100)) = Some 1"
    by (rule conjunct1)
  from th have "Acquire 2 \<noteq> Wake 1 \<longrightarrow>
      lock (rl_step netloc_simple (Acquire 2) (rl_run netloc_simple blocked_run (rl_start 5 True 100))) = Some 1"
    by blast
  then have "lock (rl_step netloc_simple (Acquire 2) (rl_run netloc_simple blocked_run (rl_start 5 True 100))) = Some 1"
    by simp
  with d pc lk show ?thesis by blast
qed

section \<open>Properties of the concurrency gate\<close>


lemma count_update:
  "i < length xs \<Longrightarrow>
   length (filter P (xs[i := p])) + (if P (xs ! i) then 1 else 0)
     = length (filter P xs) + (if P p then 1 else 0)"
proof (induction xs arbitrary: i)
  case Nil
  then show ?case by simp
next
  case (Cons x xs)
  show ?case
  proof (cases i)
    case 0
    then show ?thesis by simp
  next
    case (Suc j)
    with Cons.prems have "j < length xs" by simp
    from Cons.IH [OF this] Suc show ?thesis by simp
  qed
qed

lemma active_update:
  "i < length (fpcs w) \<Longrightarrow>
   active (w\<lparr>fpcs := (fpcs w)[i := p]\<rparr>) + (if in_block (fpcs w ! i) then 1 else 0)
     = active w + (if in_block p then 1 else 0)"
  using count_update [of i "fpcs w" in_block p] by (simp add: active_def)

lemma active_sem_value [simp]: "active (w\<lparr>sem_value := v\<rparr>) = active w"
  by (simp add: active_def)

lemma active_entries [simp]: "active (w\<lparr>entries := v\<rparr>) = active w"
  by (simp add: active_def)

lemma enter_block_inv:
  assumes inv: "gate_inv k w" and i: "i < length (fpcs w)" and pos: "0 < sem_value w"
    and pc: "entered (fpcs w ! i) = 0"
  shows "gate_inv k (enter_block i w)"
proof -
  have nb: "\<not> in_block (fpcs w ! i)" using pc by (cases "fpcs w ! i") simp_all
  have en: "entries w = map entered (fpcs w)" using inv by (simp add: gate_inv_def)
  have e1: "(entries w)[i := entries w ! i + 1] = map entered ((fpcs w)[i := p])"
    if "entered p = 1" for p
    using en i pc that by (simp add: map_update)
  show ?thesis
  proof (cases "gate_retries w < 1")
    case True
    have "active (w\<lparr>fpcs := (fpcs w)[i := Finished (Inr None)]\<rparr>) = active w"
      using active_update [OF i, of "Finished (Inr None)"] nb by simp
    with True inv i e1 [of "Finished (Inr None)"] show ?thesis
      by (simp add: enter_block_def gate_inv_def active_def)
  next
    case False
    have "active (w\<lparr>fpcs := (fpcs w)[i := Attempting 1 1]\<rparr>) = active w + 1"
      using active_update [OF i, of "Attempting 1 1"] nb by simp
    with False inv i pos e1 [of "Attempting 1 1"] show ?thesis
      by (simp add: enter_block_def gate_inv_def active_def)
  qed
qed

lemma move_inv:
  assumes inv: "gate_inv k w" and i: "i < length (fpcs w)"
    and same: "in_block p = in_block (fpcs w ! i)" "entered p = entered (fpcs w ! i)"
  shows "gate_inv k (w\<lparr>fpcs := (fpcs w)[i := p]\<rparr>)"
proof -
  have "active (w\<lparr>fpcs := (fpcs w)[i := p]\<rparr>) = active w"
    using active_update [OF i, of p] same(1) by simp
  moreover have "map entered ((fpcs w)[i := p]) = map entered (fpcs w)"
    using same(2) i by (simp add: map_update list_update_same_conv)
  ultimately show ?thesis using inv by (simp add: gate_inv_def)
qed

lemma leave_inv:
  assumes inv: "gate_inv k w" and i: "i < length (fpcs w)"
    and pc: "fpcs w ! i = Attempting a b"
  shows "gate_inv k (w\<lparr>sem_value := sem_value w + 1, fpcs := (fpcs w)[i := Finished r]\<rparr>)"
proof -
  have "active (w\<lparr>fpcs := (fpcs w)[i := Finished r]\<rparr>) + 1 = active w"
    using active_update [OF i, of "Finished r"] pc by simp
  then have a: "length (filter in_block ((fpcs w)[i := Finished r])) + 1 = active w"
    by (simp add: active_def)
  have "map entered ((fpcs w)[i := Finished r]) = map entered (fpcs w)"
    using pc i by (simp add: map_update list_update_same_conv)
  with a inv show ?thesis by (simp add: gate_inv_def active_def)
qed

lemma gate_step_inv:
  assumes inv: "gate_inv k w"
  shows "gate_inv k (gate_step e w)"
proof (cases e)
  case (GCall i)
  show ?thesis
  proof (cases "i < length (fpcs w) \<and> fpcs w ! i = NotCalled")
    case False
    with GCall inv show ?thesis by auto
  next
    case True
    show ?thesis
    proof (cases "0 < sem_value w")
      case pos: True
      from enter_block_inv [OF inv _ pos, of i] True GCall pos show ?thesis by simp
    next
      case False
      from move_inv [OF inv, of i WaitSem] True GCall False show ?thesis by simp
    qed
  qed
next
  case (GGrant i)
  show ?thesis
  proof (cases "i < length (fpcs w) \<and> fpcs w ! i = WaitSem \<and> 0 < sem_value w")
    case False
    with GGrant inv show ?thesis by auto
  next
    case True
    from enter_block_inv [OF inv, of i] True GGrant show ?thesis by simp
  qed
next
  case (GResponse i out)
  show ?thesis
  proof (cases "i < length (fpcs w)")
    case False
    with GResponse inv show ?thesis by simp
  next
    case i: True
    show ?thesis
    proof (cases "fpcs w ! i")
      case (Attempting a b)
      show ?thesis
      proof (cases out)
        case (Inr body)
        from leave_inv [OF inv i Attempting] GResponse i Attempting Inr show ?thesis by simp
      next
        case (Inl err)
        show ?thesis
        proof (cases "a = gate_retries w")
          case True
          from leave_inv [OF inv i Attempting] GResponse i Attempting Inl True show ?thesis by simp
        next
          case False
          from move_inv [OF inv i, of "BackingOff a b"] GResponse i Attempting Inl False
          show ?thesis by simp
        qed
      qed
    qed (use GResponse i inv in simp_all)
  qed
next
  case (GTimer i)
  show ?thesis
  proof (cases "i < length (fpcs w)")
    case False
    with GTimer inv show ?thesis by simp
  next
    case i: True
    show ?thesis
    proof (cases "fpcs w ! i")
      case (BackingOff a b)
      from move_inv [OF inv i, of "Attempting (a + 1) (b * 2)"] GTimer i BackingOff
      show ?thesis by simp
    qed (use GTimer i inv in simp_all)
  qed
qed

lemma gate_run_inv: "gate_inv k w \<Longrightarrow> gate_inv k (gate_run es w)"
  by (induction es arbitrary: w) (simp_all add: gate_step_inv)

lemma gate_start_inv: "gate_inv k (gate_start k n r)"
  by (simp add: gate_inv_def gate_start_def active_def)

lemma gate_step_length [simp]: "length (fpcs (gate_step e w)) = length (fpcs w)"
  by (cases e) (auto simp: enter_block_def split: fpc.splits sum.splits)

lemma gate_run_length [simp]: "length (fpcs (gate_run es w)) = length (fpcs w)"
  by (induction es arbitrary: w) simp_all

text \<open>
  Claim C7.  For a semaphore of \<open>k\<close> units shared by any number of tasks calling
  \<open>fetch\<close>, in every state the event loop can reach at most \<open>k\<close> tasks are inside
  the \<open>async with semaphore\<close> block, where all attempts and backoff sleeps of a call
  take place; the counter and those tasks add up to \<open>k\<close>.  No task enters the
  semaphore more than once per call, and a task in any attempt or backoff sleep has
  entered it exactly once: retries stay in the slot taken on entry.
\<close>

theorem gate_bound:
  "active (gate_run es (gate_start k n r)) \<le> k
   \<and> sem_value (gate_run es (gate_start k n r)) + active (gate_run es (gate_start k n r)) = k
   \<and> (\<forall>i<n. entries (gate_run es (gate_start k n r)) ! i \<le> 1
          \<and> (in_block (fpcs (gate_run es (gate_start k n r)) ! i) \<longrightarrow>
               entries (gate_run es (gate_start k n r)) ! i = 1))"
proof -
  let ?w = "gate_run es (gate_start k n r)"
  have inv: "gate_inv k ?w" using gate_start_inv by (rule gate_run_inv)
  have len: "length (fpcs ?w) = n" by (simp add: gate_start_def)
  have sum: "sem_value ?w + active ?w = k" using inv by (simp add: gate_inv_def)
  have en: "entries ?w ! i = entered (fpcs ?w ! i)" if "i < n" for i
    using inv len that by (simp add: gate_inv_def)
  have e1: "entries ?w ! i \<le> 1" if "i < n" for i
    using en [OF that] by (cases "fpcs ?w ! i") simp_all
  have e2: "entries ?w ! i = 1" if "i < n" "in_block (fpcs ?w ! i)" for i
    using en [OF that(1)] that(2) by (cases "fpcs ?w ! i") simp_all
  from sum e1 e2 show ?thesis by auto
qed

theorem gate_bound_witness:
  "(0::nat) < 3
   \<and> active (gate_run gate_demo (gate_start 2 3 3)) = 2
   \<and> sem_value (gate_run gate_demo (gate_start 2 3 3)) = 0
   \<and> fpcs (gate_run gate_demo (gate_start 2 3 3)) ! 0 = Attempting 2 2
   \<and> entries (gate_run gate_demo (gate_start 2 3 3)) ! 0 = 1"
proof -
  have run: "gate_run gate_demo (gate_start 2 3 3) =
     \<lparr>sem_value = 0, gate_retries = 3,
      fpcs = [Attempting 2 2, Finished (Inr (Some ''<html>'')), Attempting 1 1],
      entries = [1, 1, 1]\<rparr>"
    by (simp add: gate_demo_def gate_start_def enter_block_def eval_nat_numeral)
  have i: "(0::nat) < 3" by simp
  from gate_bound [of gate_demo 2 3 3]
  have "active (gate_run gate_demo (gate_start 2 3 3)) \<le> 2"
    and "sem_value (gate_run gate_demo (gate_start 2 3 3)) + active (gate_run gate_demo (gate_start 2 3 3)) = 2"
    and "\<forall>i<3. entries (gate_run gate_demo (gate_start 2 3 3)) ! i \<le> 1
          \<and> (in_block (fpcs (gate_run gate_demo (gate_start 2 3 3)) ! i) \<longrightarrow>
               entries (gate_run gate_demo (gate_start 2 3 3)) ! i = 1)"
    by blast+
  then show ?thesis using i unfolding run by (simp add: active_def eval_nat_numeral)
qed

section \<open>Properties of RobotsCache\<close>

lemma lib_simple_sel [simp]:
  "url_netloc lib_simple = netloc_checked"
  "str_splitlines lib_simple = lines_of []"
  "str_lower lib_simple = map lower_char"
  "parse_line lib_simple = parse_line_simple"
  "url_filename lib_simple = filename_simple"
  by (simp_all add: lib_simple_def)

lemma netloc_checked_demo [simp]:
  "netloc_checked ''https://a/x'' = Inr ''a''"
  "netloc_checked ''https://a/y'' = Inr ''a''"
  "netloc_checked ''https://a/private/y'' = Inr ''a''"
  "netloc_checked ''https://b/z'' = Inr ''b''"
  "netloc_checked ''http://%5Bbad/x'' = Inr ''%5Bbad''"
  by (simp_all add: netloc_checked_def netloc_simple_def unbalanced_def)

lemma filename_simple_demo [simp]:
  "filename_simple ''https://a/x'' = Inr ''/x''"
  "filename_simple ''https://a/y'' = Inr ''/y''"
  "filename_simple ''https://a/private/y'' = Inr ''/private/y''"
  "filename_simple ''https://b/z'' = Inr ''/z''"
  "filename_simple ''http://%5Bbad/x'' = Inl invalid_ipv6"
  by (simp_all add: filename_simple_def netloc_simple_def unbalanced_def url_path_def)

lemma bad_robots_raises [simp]: "make_parser lib_simple bad_robots = Inl invalid_ipv6"
  by (simp add: make_parser_def bad_robots_def rfp_parse_def parse_line_simple_def
        rule_line_simple_def unbalanced_def new_entry_def)

lemma robots_text_ok [simp]: "robots_text (Status 200 (Inr text)) = text"
  by (simp add: robots_text_def try_robots_def)

text \<open>
  Claim C6 on the run above.  The robots.txt of host \<open>a\<close> makes \<open>parse\<close> raise, so
  the first call leaves the lock without storing a parser, and the second call, which
  was waiting for the lock, finds the host uncached and requests the document again.
  Both calls raise the parser's exception.
\<close>

theorem refetch_after_parse_error:
  "fetched (robots_run lib_simple ''bot'' refetch_run robots_start) = [''a'', ''a'']
   \<and> rcache (robots_run lib_simple ''bot'' refetch_run robots_start) ''a'' = None
   \<and> answers (robots_run lib_simple ''bot'' refetch_run robots_start) =
       [(''https://a/y'', Inl invalid_ipv6), (''https://a/x'', Inl invalid_ipv6)]"
  by (simp add: refetch_run_def robots_start_def in_lock_def got_robots_def)

lemma rfp_parse_empty: "rfp_parse lib [] = Inr no_rules"
  by (simp add: rfp_parse_def no_rules_def)

lemma no_rules_can_fetch:
  "rfp_can_fetch lib no_rules ua url =
     (case url_filename lib url of Inl e \<Rightarrow> Inl e | Inr f \<Rightarrow> Inr True)"
  by (simp add: rfp_can_fetch_def no_rules_def new_parser_def split: sum.splits)

lemma robots_text_failed:
  "(case r of GetRaises e \<Rightarrow> True | Status s t \<Rightarrow> s \<noteq> 200 \<or> isl t) \<Longrightarrow> robots_text r = ''''"
  by (auto simp: robots_text_def try_robots_def split: robots_response.splits sum.splits)

text \<open>
  Claim C5 as the code has it.  If the host of a URL is not cached and the request for
  its robots.txt raises, has a status other than 200, or fails while its text is read,
  then \<open>can_fetch\<close> does not raise that failure.  It stores the empty rule set for the
  host, and for that URL and every later URL of the host, without a further request, it
  returns \<open>True\<close> when the parser can extract the file name of the URL and raises the
  parser's exception when it cannot.
\<close>

theorem robots_failure_allows:
  assumes host: "url_netloc lib url = Inr host"
    and miss: "cache host = None"
    and fail: "case net (robots_url host) of
                 GetRaises e \<Rightarrow> True | Status s t \<Rightarrow> s \<noteq> 200 \<or> isl t"
  shows "can_fetch lib ua net cache url =
           ((case url_filename lib url of Inl e \<Rightarrow> Inl e | Inr f \<Rightarrow> Inr True),
            cache(host \<mapsto> no_rules), [RobotsGet (robots_url host)])
       \<and> (\<forall>url' net'. url_netloc lib url' = Inr host \<longrightarrow>
            can_fetch lib ua net' (cache(host \<mapsto> no_rules)) url' =
              ((case url_filename lib url' of Inl e \<Rightarrow> Inl e | Inr f \<Rightarrow> Inr True),
               cache(host \<mapsto> no_rules), []))"
proof -
  have "robots_text (net (robots_url host)) = ''''"
    using fail by (rule robots_text_failed)
  then have "make_parser lib (robots_text (net (robots_url host))) = Inr no_rules"
    by (simp add: make_parser_def rfp_parse_empty)
  with host miss show ?thesis
    by (simp add: can_fetch_def no_rules_can_fetch)
qed

text \<open>
  Claim C5 says that \<open>can_fetch\<close> returns \<open>True\<close> for every URL of a host whose
  robots.txt cannot be fetched.  For the URL below the host is read without error and the
  fetch fails, but the parser's own \<open>can_fetch\<close> decodes \<open>%5B\<close> before it parses
  the URL and raises.
\<close>

theorem robots_failure_raises_counterexample:
  "can_fetch lib_simple ''bot'' (\<lambda>u. GetRaises (Exc ''ClientConnectorError'' ''Cannot connect''))
     Map.empty ''http://%5Bbad/x''
   = (Inl (Exc ''ValueError'' ''Invalid IPv6 URL''),
      [''%5Bbad'' \<mapsto> no_rules], [RobotsGet ''https://%5Bbad/robots.txt''])"
  by (simp add: can_fetch_def robots_text_def try_robots_def make_parser_def rfp_parse_empty
        no_rules_can_fetch robots_url_def invalid_ipv6_def)

theorem robots_failure_allows_witness:
  "url_netloc lib_simple ''https://a/private/y'' = Inr ''a''
   \<and> (Map.empty :: string \<rightharpoonup> RobotFileParser) ''a'' = None
   \<and> can_fetch lib_simple ''bot'' (\<lambda>u. Status 503 (Inr ''Disallow: /'')) Map.empty
        ''https://a/private/y''
      = (Inr True, [''a'' \<mapsto> no_rules], [RobotsGet ''https://a/robots.txt''])
   \<and> can_fetch lib_simple ''bot'' (\<lambda>u. Status 200 (Inr ''Disallow: /'')) [''a'' \<mapsto> no_rules]
        ''https://a/x''
      = (Inr True, [''a'' \<mapsto> no_rules], [])"
proof -
  have host: "url_netloc lib_simple ''https://a/private/y'' = Inr ''a''" by simp
  have miss: "(Map.empty :: string \<rightharpoonup> RobotFileParser) ''a'' = None" by simp
  have fail: "case (\<lambda>u. Status 503 (Inr ''Disallow: /'')) (robots_url ''a'') of
                 GetRaises e \<Rightarrow> True | Status s t \<Rightarrow> s \<noteq> 200 \<or> isl t"
    by simp
  note th = robots_failure_allows [OF host miss fail, of "''bot''"]
  from th have 1: "can_fetch lib_simple ''bot'' (\<lambda>u. Status 503 (Inr ''Disallow: /'')) Map.empty
        ''https://a/private/y''
      = (Inr True, [''a'' \<mapsto> no_rules], [RobotsGet ''https://a/robots.txt''])"
    by (simp add: robots_url_def)
  from th have "url_netloc lib_simple ''https://a/x'' = Inr ''a'' \<longrightarrow>
     can_fetch lib_simple ''bot'' (\<lambda>u. Status 200 (Inr ''Disallow: /'')) [''a'' \<mapsto> no_rules]
       ''https://a/x'' =
     ((case url_filename lib_simple ''https://a/x'' of Inl e \<Rightarrow> Inl e | Inr f \<Rightarrow> Inr True),
      [''a'' \<mapsto> no_rules], [])"
    by blast
  then have 2: "can_fetch lib_simple ''bot'' (\<lambda>u. Status 200 (Inr ''Disallow: /'')) [''a'' \<mapsto> no_rules]
        ''https://a/x'' = (Inr True, [''a'' \<mapsto> no_rules], [])"
    by simp
  from host miss 1 2 show ?thesis by blast
qed

end
